theory Spec2Isabelle
  imports Complex_Main "HOL-Library.AList" "HOL-Library.Multiset"
begin

section \<open>Data model of the B-tree visualizer\<close>

text \<open>
  \<^verbatim>\<open>visualizer.js\<close> keeps one object per page in \<^verbatim>\<open>this.nodes\<close>, a JavaScript \<^verbatim>\<open>Map\<close>
  from page number to node object. A \<^verbatim>\<open>Map\<close> is finite and iterates in insertion order;
  \<^verbatim>\<open>set\<close> on a present key replaces the value in place, on an absent key appends. It is
  modelled as an association list with \<open>map_of\<close> (get), \<open>AList.update\<close> (set) and
  \<open>AList.delete\<close> (delete). Node objects are mutated in place and shared by reference;
  every key holds an object of its own, so the key serves as the object's address and an
  in-place mutation is \<open>AList.map_entry\<close> on that key.

  Page numbers, page types, cell indices and key lengths are typed as integers.
  Coordinates, the animation speed and times are JavaScript numbers; they are modelled as
  exact rationals. The fields \<^verbatim>\<open>type\<close>, \<^verbatim>\<open>x\<close> and \<^verbatim>\<open>y\<close> of a node are named
  \<open>pageType\<close>, \<open>node_x\<close> and \<open>node_y\<close>.
\<close>

record cell =
  idx :: int
  keyLen :: int
  key :: string

record node =
  page :: int
  pageType :: int
  cells :: "cell list"
  parent :: "int option"
  children :: "int list"
  node_x :: rat
  node_y :: rat
  expanded :: bool

type_synonym store = "(int \<times> node) list"

text \<open>
  A pending \<^verbatim>\<open>setTimeout\<close> callback of one of the \<^verbatim>\<open>animate...\<close> methods: the time at which
  it was scheduled, the delay it was given, and the pages its callback deletes from
  \<^verbatim>\<open>highlightedNodes\<close>.
\<close>

record timer =
  started :: rat
  delay :: rat
  clears :: "int list"

text \<open>
  The state of a \<^verbatim>\<open>BTreeVisualizer\<close>. \<open>clock\<close> is the host's current time and
  \<open>clientWidth\<close> is \<^verbatim>\<open>canvas.clientWidth\<close>; \<open>timers\<close> is the host's list of pending
  callbacks.
\<close>

record visualizer =
  nodes :: store
  rootPage :: int
  pageSize :: int
  showTransitions :: bool
  animationSpeed :: rat
  highlightedNodes :: "int set"
  timers :: "timer list"
  clock :: rat
  clientWidth :: int

definition nodeWidth :: rat where "nodeWidth = 120"
definition nodeHeight :: rat where "nodeHeight = 60"
definition levelHeight :: rat where "levelHeight = 120"
definition horizontalSpacing :: rat where "horizontalSpacing = 40"

text \<open>The state the constructor leaves behind, for a canvas of the given width.\<close>

definition new_visualizer :: "int \<Rightarrow> visualizer" where
  "new_visualizer w =
     \<lparr>nodes = [], rootPage = 1, pageSize = 4096, showTransitions = True,
      animationSpeed = 1, highlightedNodes = {}, timers = [], clock = 0,
      clientWidth = w\<rparr>"

subsection \<open>Array.prototype.splice and number formatting\<close>

text \<open>
  \<^verbatim>\<open>splice(start, ...)\<close> on an array of length \<open>len\<close> begins at \<open>len + start\<close> (at least 0)
  for a negative \<open>start\<close> and at \<open>min start len\<close> otherwise.
\<close>

definition splice_start :: "nat \<Rightarrow> int \<Rightarrow> nat" where
  "splice_start len start =
     (if start < 0 then nat (max (int len + start) 0) else min (nat start) len)"

text \<open>\<^verbatim>\<open>xs.splice(start, 0, item)\<close>: the array afterwards.\<close>

definition splice_insert :: "'a list \<Rightarrow> int \<Rightarrow> 'a \<Rightarrow> 'a list" where
  "splice_insert xs start item =
     (let s = splice_start (length xs) start in take s xs @ [item] @ drop s xs)"

text \<open>\<^verbatim>\<open>xs.splice(start, 1)\<close>: the array afterwards (nothing is removed at the end).\<close>

definition splice_delete1 :: "'a list \<Rightarrow> int \<Rightarrow> 'a list" where
  "splice_delete1 xs start =
     (let s = splice_start (length xs) start in take s xs @ drop (Suc s) xs)"

text \<open>\<^verbatim>\<open>xs.splice(start)\<close>: what stays in the array, and what is returned.\<close>

definition splice_keep :: "'a list \<Rightarrow> int \<Rightarrow> 'a list" where
  "splice_keep xs start = take (splice_start (length xs) start) xs"

definition splice_removed :: "'a list \<Rightarrow> int \<Rightarrow> 'a list" where
  "splice_removed xs start = drop (splice_start (length xs) start) xs"

fun show_nat :: "nat \<Rightarrow> string" where
  "show_nat n =
     (if n < 10 then [''0123456789'' ! n]
      else show_nat (n div 10) @ [''0123456789'' ! (n mod 10)])"

definition show_int :: "int \<Rightarrow> string" where
  "show_int i = (if i < 0 then ''-'' @ show_nat (nat (- i)) else show_nat (nat i))"

section \<open>Layout\<close>

text \<open>
  The children of the node stored under a key that resolve to a node, in order: what the
  \<^verbatim>\<open>forEach\<close> of \<^verbatim>\<open>buildLevels\<close> pushes on the queue.
\<close>

definition kids :: "store \<Rightarrow> int \<Rightarrow> int list" where
  "kids s k =
     (case map_of s k of
        None \<Rightarrow> []
      | Some n \<Rightarrow> filter (\<lambda>childPage. map_of s childPage \<noteq> None) (children n))"

text \<open>
  \<^verbatim>\<open>if (!levels[level]) levels[level] = []; levels[level].push(node)\<close>. An index past the
  end extends the array and leaves holes (\<open>None\<close>) in between.
\<close>

definition push_level :: "int list option list \<Rightarrow> nat \<Rightarrow> int \<Rightarrow> int list option list" where
  "push_level levels level k =
     (if level < length levels then
        levels[level := Some ((case levels ! level of None \<Rightarrow> [] | Some ns \<Rightarrow> ns) @ [k])]
      else levels @ replicate (level - length levels) None @ [Some [k]])"

text \<open>
  The \<^verbatim>\<open>while (queue.length > 0)\<close> loop of \<^verbatim>\<open>buildLevels\<close>. Nothing bounds the number of
  iterations, so the loop is a partial function: \<open>None\<close> is a loop that never ends.
\<close>

partial_function (option) bfs_loop ::
  "store \<Rightarrow> (int \<times> nat) list \<Rightarrow> int list option list \<Rightarrow> int list option list option" where
  "bfs_loop s queue levels =
     (case queue of
        [] \<Rightarrow> Some levels
      | (k, level) # rest \<Rightarrow>
          bfs_loop s (rest @ map (\<lambda>childPage. (childPage, level + 1)) (kids s k))
            (push_level levels level k))"

declare bfs_loop.simps [code]

definition buildLevels :: "store \<Rightarrow> int \<Rightarrow> int list option list option" where
  "buildLevels s r = bfs_loop s [(r, 0)] []"

fun place_nodes :: "rat \<Rightarrow> rat \<Rightarrow> int list \<Rightarrow> store \<Rightarrow> store" where
  "place_nodes currentX currentY [] s = s"
| "place_nodes currentX currentY (k # ks) s =
     place_nodes (currentX + (nodeWidth + horizontalSpacing)) currentY ks
       (AList.map_entry k (\<lambda>n. n\<lparr>node_x := currentX, node_y := currentY\<rparr>) s)"

text \<open>\<^verbatim>\<open>levels.forEach\<close> skips the holes of the array.\<close>

fun place_levels :: "int \<Rightarrow> rat \<Rightarrow> int list option list \<Rightarrow> store \<Rightarrow> store" where
  "place_levels canvasWidth currentY [] s = s"
| "place_levels canvasWidth currentY (None # ls) s = place_levels canvasWidth currentY ls s"
| "place_levels canvasWidth currentY (Some levelNodes # ls) s =
     (let totalWidth = of_nat (length levelNodes) * (nodeWidth + horizontalSpacing);
          currentX = (of_int canvasWidth - totalWidth) / 2
      in place_levels canvasWidth (currentY + levelHeight) ls
           (place_nodes currentX currentY levelNodes s))"

definition layout :: "visualizer \<Rightarrow> visualizer option" where
  "layout v =
     (if nodes v = [] then Some v
      else case map_of (nodes v) (rootPage v) of
        None \<Rightarrow> Some v
      | Some _ \<Rightarrow>
          (case buildLevels (nodes v) (rootPage v) of
             None \<Rightarrow> None
           | Some levels \<Rightarrow>
               Some (v\<lparr>nodes := place_levels (clientWidth v) 50 levels (nodes v)\<rparr>)))"

text \<open>
  \<^verbatim>\<open>drawConnections(node)\<close>: the line segments stroked, from the bottom centre of the node
  to the top centre of each child that resolves.
\<close>

definition drawConnections :: "store \<Rightarrow> node \<Rightarrow> ((rat \<times> rat) \<times> (rat \<times> rat)) list" where
  "drawConnections s n =
     concat (map (\<lambda>childPage.
        case map_of s childPage of
          None \<Rightarrow> []
        | Some child \<Rightarrow>
            [((node_x n + nodeWidth / 2, node_y n + nodeHeight),
              (node_x child + nodeWidth / 2, node_y child))]) (children n))"

section \<open>Mutations\<close>

text \<open>
  Every mutation ends with \<^verbatim>\<open>this.layout(); this.draw();\<close>. \<^verbatim>\<open>draw\<close> paints the canvas and
  leaves the state as it is. A mutation returns \<open>None\<close> when its layout never ends.
\<close>

text \<open>The node object that \<^verbatim>\<open>addPage\<close> creates.\<close>

definition fresh_node :: "int \<Rightarrow> int \<Rightarrow> node" where
  "fresh_node pageNum pType =
     \<lparr>page = pageNum, pageType = pType, cells = [], parent = None, children = [],
      node_x = 0, node_y = 0, expanded = True\<rparr>"

definition addPage :: "visualizer \<Rightarrow> int \<Rightarrow> int \<Rightarrow> visualizer option" where
  "addPage v pageNum pType =
     layout (v\<lparr>nodes := AList.update pageNum (fresh_node pageNum pType) (nodes v)\<rparr>)"

definition animateInsertion :: "visualizer \<Rightarrow> int \<Rightarrow> int \<Rightarrow> visualizer" where
  "animateInsertion v pageNum cellIdx =
     v\<lparr>highlightedNodes := insert pageNum (highlightedNodes v),
       timers := timers v @
         [\<lparr>started = clock v, delay = 500 / animationSpeed v, clears = [pageNum]\<rparr>]\<rparr>"

definition animateDeletion :: "visualizer \<Rightarrow> int \<Rightarrow> int \<Rightarrow> visualizer" where
  "animateDeletion v pageNum cellIdx =
     v\<lparr>highlightedNodes := insert pageNum (highlightedNodes v),
       timers := timers v @
         [\<lparr>started = clock v, delay = 500 / animationSpeed v, clears = [pageNum]\<rparr>]\<rparr>"

definition animateSplit :: "visualizer \<Rightarrow> int \<Rightarrow> int \<Rightarrow> int \<Rightarrow> visualizer" where
  "animateSplit v originalPage newPage splitCell =
     v\<lparr>highlightedNodes := insert newPage (insert originalPage (highlightedNodes v)),
       timers := timers v @
         [\<lparr>started = clock v, delay = 1000 / animationSpeed v,
           clears = [originalPage, newPage]\<rparr>]\<rparr>"

text \<open>The cell object that \<^verbatim>\<open>addCell\<close> creates.\<close>

definition new_cell :: "int \<Rightarrow> int \<Rightarrow> cell" where
  "new_cell cellIdx kLen = \<lparr>idx = cellIdx, keyLen = kLen, key = ''Key'' @ show_int cellIdx\<rparr>"

definition addCell :: "visualizer \<Rightarrow> int \<Rightarrow> int \<Rightarrow> int \<Rightarrow> visualizer option" where
  "addCell v pageNum cellIdx kLen =
     (case map_of (nodes v) pageNum of
        None \<Rightarrow> Some v
      | Some _ \<Rightarrow>
          (let v1 = v\<lparr>nodes := AList.map_entry pageNum
                      (\<lambda>n. n\<lparr>cells := splice_insert (cells n) cellIdx
                                        (new_cell cellIdx kLen)\<rparr>) (nodes v)\<rparr>;
               v2 = (if showTransitions v1 then animateInsertion v1 pageNum cellIdx else v1)
           in layout v2))"

definition deleteCell :: "visualizer \<Rightarrow> int \<Rightarrow> int \<Rightarrow> visualizer option" where
  "deleteCell v pageNum cellIdx =
     (case map_of (nodes v) pageNum of
        None \<Rightarrow> Some v
      | Some _ \<Rightarrow>
          (let v1 = (if showTransitions v then animateDeletion v pageNum cellIdx else v);
               v2 = v1\<lparr>nodes := AList.map_entry pageNum
                      (\<lambda>n. n\<lparr>cells := splice_delete1 (cells n) cellIdx\<rparr>) (nodes v1)\<rparr>
           in layout v2))"

text \<open>
  \<^verbatim>\<open>splitPage\<close> holds the object \<^verbatim>\<open>original\<close> while \<^verbatim>\<open>addPage\<close> stores a fresh object under
  \<^verbatim>\<open>newPage\<close>. When the two page numbers differ, \<^verbatim>\<open>original\<close> is still the object of the
  store and its \<^verbatim>\<open>splice\<close> is seen there; when they are equal the store holds the fresh
  object, and the \<^verbatim>\<open>splice\<close> changes an object that the store no longer holds. The cells of
  \<^verbatim>\<open>original\<close> are the same before and after \<^verbatim>\<open>addPage\<close> in both cases.
\<close>

definition splitPage :: "visualizer \<Rightarrow> int \<Rightarrow> int \<Rightarrow> int \<Rightarrow> visualizer option" where
  "splitPage v originalPage newPage splitCell =
     (case map_of (nodes v) originalPage of
        None \<Rightarrow> Some v
      | Some original \<Rightarrow>
          (case addPage v newPage (pageType original) of
             None \<Rightarrow> None
           | Some v1 \<Rightarrow>
               (let cellsToMove = splice_removed (cells original) splitCell;
                    s1 = (if newPage = originalPage then nodes v1
                          else AList.map_entry originalPage
                                 (\<lambda>n. n\<lparr>cells := splice_keep (cells n) splitCell\<rparr>) (nodes v1));
                    s2 = AList.map_entry newPage (\<lambda>n. n\<lparr>cells := cellsToMove\<rparr>) s1;
                    v2 = v1\<lparr>nodes := s2\<rparr>;
                    v3 = (if showTransitions v2
                          then animateSplit v2 originalPage newPage splitCell else v2)
                in layout v3)))"

text \<open>The listener of \<^verbatim>\<open>PAGE_FREE\<close> (code 7), applied to the page of the event.\<close>

definition pageFree :: "visualizer \<Rightarrow> int \<Rightarrow> visualizer option" where
  "pageFree v pageNum = layout (v\<lparr>nodes := AList.delete pageNum (nodes v)\<rparr>)"

text \<open>\<^verbatim>\<open>toggleNodeExpansion(node)\<close>, for the node object stored under the key.\<close>

definition toggleNodeExpansion :: "visualizer \<Rightarrow> int \<Rightarrow> visualizer option" where
  "toggleNodeExpansion v k =
     layout (v\<lparr>nodes := AList.map_entry k (\<lambda>n. n\<lparr>expanded := \<not> expanded n\<rparr>) (nodes v)\<rparr>)"

text \<open>
  \<^verbatim>\<open>getNodeAtPosition\<close> returns the first node, in the order of the \<^verbatim>\<open>Map\<close>, whose
  rectangle holds the point; the click listener toggles it.
\<close>

definition getNodeAtPosition :: "visualizer \<Rightarrow> rat \<Rightarrow> rat \<Rightarrow> int option" where
  "getNodeAtPosition v px py =
     map_option fst
       (find (\<lambda>(k, n). px \<ge> node_x n \<and> px \<le> node_x n + nodeWidth \<and>
                        py \<ge> node_y n \<and> py \<le> node_y n + nodeHeight) (nodes v))"

definition click :: "visualizer \<Rightarrow> rat \<Rightarrow> rat \<Rightarrow> visualizer option" where
  "click v px py =
     (case getNodeAtPosition v px py of
        None \<Rightarrow> Some v
      | Some k \<Rightarrow> toggleNodeExpansion v k)"


section \<open>Highlight timers\<close>



section \<open>Mutation records and the event manager\<close>

text \<open>
  The typed content of the events that \<^verbatim>\<open>connectEvents\<close> listens to, and what the listener
  of each does with it.
\<close>

datatype mutation =
    Open int
  | Allocate int int
  | Free int
  | Insert int int int
  | Delete int int
  | Split int int int

fun apply_mutation :: "visualizer \<Rightarrow> mutation \<Rightarrow> visualizer option" where
  "apply_mutation v (Open ps) = Some (v\<lparr>pageSize := ps\<rparr>)"
| "apply_mutation v (Allocate p t) = addPage v p t"
| "apply_mutation v (Free p) = pageFree v p"
| "apply_mutation v (Insert p i kl) = addCell v p i kl"
| "apply_mutation v (Delete p i) = deleteCell v p i"
| "apply_mutation v (Split p q i) = splitPage v p q i"

fun run :: "visualizer \<Rightarrow> mutation list \<Rightarrow> visualizer option" where
  "run v [] = Some v"
| "run v (m # ms) = (case apply_mutation v m of None \<Rightarrow> None | Some v' \<Rightarrow> run v' ms)"

text \<open>
  A valid record addresses a page that exists and, for a cell, a position of the page's
  current cell array: an insertion at \<open>0..length\<close>, a deletion at \<open>0..length - 1\<close>. A valid
  sequence of allocations, insertions and deletions is one whose records are valid in the
  state in which each is applied.
\<close>

fun valid_mutation :: "visualizer \<Rightarrow> mutation \<Rightarrow> bool" where
  "valid_mutation v (Allocate p t) = True"
| "valid_mutation v (Insert p i kl) =
     (case map_of (nodes v) p of
        None \<Rightarrow> False
      | Some n \<Rightarrow> 0 \<le> i \<and> i \<le> int (length (cells n)))"
| "valid_mutation v (Delete p i) =
     (case map_of (nodes v) p of
        None \<Rightarrow> False
      | Some n \<Rightarrow> 0 \<le> i \<and> i < int (length (cells n)))"
| "valid_mutation v _ = False"

fun valid_run :: "visualizer \<Rightarrow> mutation list \<Rightarrow> bool" where
  "valid_run v [] = True"
| "valid_run v (m # ms) =
     (valid_mutation v m \<and>
      (case apply_mutation v m of None \<Rightarrow> False | Some v' \<Rightarrow> valid_run v' ms))"

text \<open>The cells of a page, when the page exists.\<close>

definition cells_of :: "visualizer \<Rightarrow> int \<Rightarrow> cell list option" where
  "cells_of v p = map_option cells (map_of (nodes v) p)"

text \<open>
  The values \<^verbatim>\<open>JSON.parse\<close> returns, with numbers restricted to integers. An object lists
  each member once.
\<close>

datatype json =
    JNull
  | JBool bool
  | JNum int
  | JStr string
  | JArr "json list"
  | JObj "(string \<times> json) list"

datatype js_error = SyntaxError | TypeError

text \<open>
  How a call ends: it returns, it throws and leaves a state behind, it never returns, or
  it would hand the visualizer a value that is not an integer, which the integer-typed
  model of the visualizer does not cover.
\<close>

datatype 'a outcome = Returns 'a | Throws js_error 'a | Hangs | Untyped

record event =
  event_id :: nat
  event_type :: int
  typeName :: string
  category :: string
  data :: json
  timestamp :: rat

datatype listener_key = Code int | Star

type_synonym callback = "event \<Rightarrow> visualizer \<Rightarrow> visualizer outcome"

record manager =
  events :: "event list"
  eventCount :: nat
  listeners :: "(listener_key \<times> callback list) list"

text \<open>
  What the page provides: \<^verbatim>\<open>JSON.parse\<close> (\<open>None\<close> is a thrown \<^verbatim>\<open>SyntaxError\<close>) and whether
  the element \<^verbatim>\<open>event-log\<close> exists.
\<close>

record host =
  JSON_parse :: "string \<Rightarrow> json option"
  has_event_log :: bool

definition new_manager :: manager where
  "new_manager = \<lparr>events = [], eventCount = 0, listeners = []\<rparr>"

definition eventTypeNames :: "int \<Rightarrow> string option" where
  "eventTypeNames = map_of
     [(0, ''BTREE_OPEN''), (1, ''BTREE_CLOSE''), (2, ''BTREE_INSERT''), (3, ''BTREE_DELETE''),
      (4, ''BTREE_SPLIT''), (5, ''BTREE_BALANCE''), (6, ''PAGE_ALLOCATE''), (7, ''PAGE_FREE''),
      (8, ''PARSE_START''), (9, ''PARSE_TOKEN''), (10, ''PARSE_COMPLETE''),
      (11, ''VDBE_START''), (12, ''VDBE_OPCODE''), (13, ''VDBE_COMPLETE'')]"

definition eventCategories :: "int \<Rightarrow> string option" where
  "eventCategories = map_of
     [(0, ''btree''), (1, ''btree''), (2, ''btree''), (3, ''btree''), (4, ''btree''),
      (5, ''btree''), (6, ''btree''), (7, ''btree''), (8, ''parse''), (9, ''parse''),
      (10, ''parse''), (11, ''vdbe''), (12, ''vdbe''), (13, ''vdbe'')]"

text \<open>
  \<^verbatim>\<open>formatEventData\<close> reads properties of \<^verbatim>\<open>event.data\<close> in every named case of its
  \<^verbatim>\<open>switch\<close>, which throws a \<^verbatim>\<open>TypeError\<close> on \<^verbatim>\<open>null\<close>; the default case calls
  \<^verbatim>\<open>JSON.stringify\<close>. The text it returns goes to the page only. \<^verbatim>\<open>logEvent\<close> returns at once
  when the log element is missing.
\<close>

definition formatEventData :: "event \<Rightarrow> js_error option" where
  "formatEventData e =
     (if typeName e \<in> set [''BTREE_OPEN'', ''BTREE_INSERT'', ''BTREE_DELETE'', ''BTREE_SPLIT'',
          ''PAGE_ALLOCATE'', ''PAGE_FREE'', ''PARSE_START'', ''PARSE_TOKEN'', ''PARSE_COMPLETE'',
          ''VDBE_START'', ''VDBE_OPCODE'', ''VDBE_COMPLETE''] \<and> data e = JNull
      then Some TypeError else None)"

definition logEvent :: "host \<Rightarrow> event \<Rightarrow> js_error option" where
  "logEvent h e = (if has_event_log h then formatEventData e else None)"

fun run_callbacks :: "callback list \<Rightarrow> event \<Rightarrow> visualizer \<Rightarrow> visualizer outcome" where
  "run_callbacks [] e v = Returns v"
| "run_callbacks (cb # cbs) e v =
     (case cb e v of Returns v' \<Rightarrow> run_callbacks cbs e v' | other \<Rightarrow> other)"

definition callbacks_for :: "manager \<Rightarrow> listener_key \<Rightarrow> callback list" where
  "callbacks_for m k = (case map_of (listeners m) k of None \<Rightarrow> [] | Some cbs \<Rightarrow> cbs)"

definition notifyListeners :: "manager \<Rightarrow> event \<Rightarrow> visualizer \<Rightarrow> visualizer outcome" where
  "notifyListeners m e v =
     (case run_callbacks (callbacks_for m (Code (event_type e))) e v of
        Returns v' \<Rightarrow> run_callbacks (callbacks_for m Star) e v'
      | other \<Rightarrow> other)"

text \<open>
  \<^verbatim>\<open>handleEvent\<close>. The object literal evaluates \<^verbatim>\<open>this.eventCount++\<close> before
  \<^verbatim>\<open>JSON.parse(dataJson)\<close>, and nothing catches what \<^verbatim>\<open>JSON.parse\<close>, \<^verbatim>\<open>logEvent\<close> or a
  listener throws.
\<close>

definition handleEvent ::
  "host \<Rightarrow> manager \<times> visualizer \<Rightarrow> int \<Rightarrow> string \<Rightarrow> (manager \<times> visualizer) outcome" where
  "handleEvent h mv eventType dataJson =
     (let m = fst mv; v = snd mv;
          m1 = m\<lparr>eventCount := eventCount m + 1\<rparr>
      in case JSON_parse h dataJson of
           None \<Rightarrow> Throws SyntaxError (m1, v)
         | Some d \<Rightarrow>
             (let e = \<lparr>event_id = eventCount m, event_type = eventType,
                       typeName = (case eventTypeNames eventType of
                                     None \<Rightarrow> ''UNKNOWN'' | Some nm \<Rightarrow> nm),
                       category = (case eventCategories eventType of
                                     None \<Rightarrow> ''other'' | Some c \<Rightarrow> c),
                       data = d, timestamp = clock v\<rparr>;
                  m2 = m1\<lparr>events := events m1 @ [e]\<rparr>
              in case logEvent h e of
                   Some err \<Rightarrow> Throws err (m2, v)
                 | None \<Rightarrow>
                     (case notifyListeners m2 e v of
                        Returns v' \<Rightarrow> Returns (m2, v')
                      | Throws err v' \<Rightarrow> Throws err (m2, v')
                      | Hangs \<Rightarrow> Hangs
                      | Untyped \<Rightarrow> Untyped)))"

text \<open>\<^verbatim>\<open>on(eventType, callback)\<close>.\<close>

definition on :: "listener_key \<Rightarrow> callback \<Rightarrow> manager \<Rightarrow> manager" where
  "on k cb m = m\<lparr>listeners := AList.update k (callbacks_for m k @ [cb]) (listeners m)\<rparr>"

text \<open>
  The listeners of \<^verbatim>\<open>connectEvents\<close> read named properties of \<^verbatim>\<open>e.data\<close> and pass them to
  the visualizer. Reading a property of \<^verbatim>\<open>null\<close> throws; of any other value that has no such
  member it gives \<^verbatim>\<open>undefined\<close>.
\<close>

definition int_prop :: "json \<Rightarrow> string \<Rightarrow> int option" where
  "int_prop d name =
     (case d of
        JObj members \<Rightarrow> (case map_of members name of Some (JNum n) \<Rightarrow> Some n | _ \<Rightarrow> None)
      | _ \<Rightarrow> None)"

definition decode :: "int \<Rightarrow> json \<Rightarrow> mutation option" where
  "decode code d =
     (if code = 0 then map_option Open (int_prop d ''pageSize'')
      else if code = 6 then
        (case (int_prop d ''page'', int_prop d ''type'') of
           (Some p, Some t) \<Rightarrow> Some (Allocate p t) | _ \<Rightarrow> None)
      else if code = 7 then map_option Free (int_prop d ''page'')
      else if code = 2 then
        (case (int_prop d ''page'', int_prop d ''cell'', int_prop d ''keyLen'') of
           (Some p, Some i, Some kl) \<Rightarrow> Some (Insert p i kl) | _ \<Rightarrow> None)
      else if code = 3 then
        (case (int_prop d ''page'', int_prop d ''cell'') of
           (Some p, Some i) \<Rightarrow> Some (Delete p i) | _ \<Rightarrow> None)
      else if code = 4 then
        (case (int_prop d ''originalPage'', int_prop d ''newPage'', int_prop d ''splitCell'') of
           (Some p, Some q, Some i) \<Rightarrow> Some (Split p q i) | _ \<Rightarrow> None)
      else None)"

definition listener :: "int \<Rightarrow> callback" where
  "listener code e v =
     (if data e = JNull then Throws TypeError v
      else case decode code (data e) of
        None \<Rightarrow> Untyped
      | Some m \<Rightarrow> (case apply_mutation v m of None \<Rightarrow> Hangs | Some v' \<Rightarrow> Returns v'))"

definition connectEvents :: "manager \<Rightarrow> manager" where
  "connectEvents m =
     on (Code 4) (listener 4) (on (Code 3) (listener 3) (on (Code 2) (listener 2)
       (on (Code 7) (listener 7) (on (Code 6) (listener 6) (on (Code 0) (listener 0) m)))))"

subsection \<open>JSON texts of the bridge\<close>

text \<open>
  \<^verbatim>\<open>sqlite_bridge.c\<close> prints the B-tree events as one object whose members are integers,
  without white space, such as \<^verbatim>\<open>{"page":1,"cell":0,"keyLen":16}\<close>. \<open>parse_flat\<close> reads
  the texts of this form as \<^verbatim>\<open>JSON.parse\<close> does and rejects every other text. It stands for
  \<^verbatim>\<open>JSON.parse\<close> in the examples only, on texts of this form and on texts that are not JSON;
  the general statements hold for every parser.
\<close>

definition digit_val :: "char \<Rightarrow> nat option" where
  "digit_val c = map_of (zip ''0123456789'' [0 ..< 10]) c"

fun digits_val :: "nat \<Rightarrow> string \<Rightarrow> nat option" where
  "digits_val acc [] = Some acc"
| "digits_val acc (c # cs) =
     (case digit_val c of None \<Rightarrow> None | Some d \<Rightarrow> digits_val (10 * acc + d) cs)"

definition parse_nat :: "string \<Rightarrow> nat option" where
  "parse_nat cs =
     (if cs = [] \<or> (length cs > 1 \<and> hd cs = CHR ''0'') then None else digits_val 0 cs)"

definition parse_int :: "string \<Rightarrow> int option" where
  "parse_int cs =
     (case cs of
        [] \<Rightarrow> None
      | c # rest \<Rightarrow>
          if c = CHR ''-'' then map_option (\<lambda>n. - int n) (parse_nat rest)
          else map_option int (parse_nat cs))"

fun split_on :: "char \<Rightarrow> string \<Rightarrow> string list" where
  "split_on sep [] = [[]]"
| "split_on sep (c # cs) =
     (case split_on sep cs of
        [] \<Rightarrow> [[c]]
      | w # ws \<Rightarrow> if c = sep then [] # w # ws else (c # w) # ws)"

definition plain_name :: "string \<Rightarrow> bool" where
  "plain_name nm =
     (\<forall>c \<in> set nm. c \<in> set ''abcdefghijklmnopqrstuvwxyzABCDEFGHIJKLMNOPQRSTUVWXYZ'')"

definition parse_member :: "string \<Rightarrow> (string \<times> json) option" where
  "parse_member cs =
     (case split_on CHR '':'' cs of
        [nm, val] \<Rightarrow>
          (if length nm \<ge> 2 \<and> hd nm = CHR 0x22 \<and> last nm = CHR 0x22
              \<and> plain_name (butlast (tl nm))
           then map_option (\<lambda>n. (butlast (tl nm), JNum n)) (parse_int val)
           else None)
      | _ \<Rightarrow> None)"

fun those_members :: "(string \<times> json) option list \<Rightarrow> (string \<times> json) list option" where
  "those_members [] = Some []"
| "those_members (None # _) = None"
| "those_members (Some m # ms) = map_option (\<lambda>rest. m # rest) (those_members ms)"

text \<open>Of two members with one name \<^verbatim>\<open>JSON.parse\<close> keeps the later.\<close>

definition parse_flat :: "string \<Rightarrow> json option" where
  "parse_flat cs =
     (if cs = ''{}'' then Some (JObj [])
      else if length cs \<ge> 2 \<and> hd cs = CHR ''{'' \<and> last cs = CHR ''}'' then
        map_option (\<lambda>ms. JObj (foldl (\<lambda>acc (nm, x). AList.update nm x acc) [] ms))
          (those_members (map parse_member (split_on CHR '','' (butlast (tl cs)))))
      else None)"

definition page_host :: host where
  "page_host = \<lparr>JSON_parse = parse_flat, has_event_log = True\<rparr>"

section \<open>The levels of the layout and the graph of child references\<close>

text \<open>The resolving children of a list of keys, in order.\<close>

definition next_level :: "store \<Rightarrow> int list \<Rightarrow> int list" where
  "next_level s a = concat (map (kids s) a)"

text \<open>
  \<open>level_chain s a ls\<close>: the levels \<open>ls\<close> are \<open>a\<close>, the resolving children of \<open>a\<close>, their
  resolving children and so on, each non-empty, up to a level whose keys have no
  resolving child.
\<close>

fun level_chain :: "store \<Rightarrow> int list \<Rightarrow> int list option list \<Rightarrow> bool" where
  "level_chain s a [] = (a = [])"
| "level_chain s a (l # ls) = (a \<noteq> [] \<and> l = Some a \<and> level_chain s (next_level s a) ls)"

definition edges :: "store \<Rightarrow> (int \<times> int) set" where
  "edges s = {(k, c). c \<in> set (kids s k)}"

text \<open>No key that can be reached from \<open>r\<close> along resolving child references lies on a cycle.\<close>

definition acyclic_from :: "store \<Rightarrow> int \<Rightarrow> bool" where
  "acyclic_from s r = (\<forall>n. (r, n) \<in> (edges s)\<^sup>* \<longrightarrow> (n, n) \<notin> (edges s)\<^sup>+)"

text \<open>A store without its coordinates: what a layout leaves as it is.\<close>

definition strip :: "node \<Rightarrow> node" where
  "strip n = n\<lparr>node_x := 0, node_y := 0\<rparr>"

definition skeleton :: "store \<Rightarrow> store" where
  "skeleton s = map (\<lambda>(k, n). (k, strip n)) s"

text \<open>
  What the loop of \<^verbatim>\<open>buildLevels\<close> returns from a state in which the queue holds the rest
  \<open>a\<close> of level \<open>l\<close> followed by the part \<open>b\<close> of level \<open>l + 1\<close> found so far, and the
  last array of \<open>levels\<close> holds the part \<open>c\<close> of level \<open>l\<close> already taken from the queue.
\<close>

definition bfs_post ::
  "store \<Rightarrow> (int \<times> nat) list \<Rightarrow> int list option list \<Rightarrow> int list option list \<Rightarrow> bool" where
  "bfs_post s q lv res =
     (\<forall>l a b lv0 c. q = map (\<lambda>k. (k, l)) a @ map (\<lambda>k. (k, Suc l)) b \<longrightarrow>
        lv = lv0 @ [Some c] \<longrightarrow> length lv0 = l \<longrightarrow>
        (\<exists>rest. res = lv0 @ [Some (c @ a)] @ rest \<and> level_chain s (b @ next_level s a) rest))"

text \<open>The node stored under a page number, without its coordinates.\<close>

definition data_of :: "visualizer \<Rightarrow> int \<Rightarrow> node option" where
  "data_of v p = map_option strip (map_of (nodes v) p)"

text \<open>A root with one child, both as \<^verbatim>\<open>addPage\<close> creates them, on a canvas 800 wide.\<close>

definition parent_and_child :: visualizer where
  "parent_and_child =
     (new_visualizer 800)\<lparr>nodes :=
        [(1, (fresh_node 1 0)\<lparr>children := [2]\<rparr>), (2, fresh_node 2 1)]\<rparr>"

definition parent_collapsed :: visualizer where
  "parent_collapsed =
     (new_visualizer 800)\<lparr>nodes :=
        [(1, (fresh_node 1 0)\<lparr>children := [2], node_x := 320, node_y := 50,
               expanded := False\<rparr>),
         (2, (fresh_node 2 1)\<lparr>node_x := 320, node_y := 170\<rparr>)]\<rparr>"

definition child_freed :: visualizer where
  "child_freed =
     (new_visualizer 800)\<lparr>nodes :=
        [(1, (fresh_node 1 0)\<lparr>children := [2], node_x := 320, node_y := 50\<rparr>)]\<rparr>"

text \<open>A node with two parents.\<close>

definition diamond :: store where
  "diamond =
     [(1, (fresh_node 1 0)\<lparr>children := [2, 3]\<rparr>), (2, (fresh_node 2 0)\<lparr>children := [4]\<rparr>),
      (3, (fresh_node 3 0)\<lparr>children := [4]\<rparr>), (4, fresh_node 4 1)]"

text \<open>No node of the store names a child: the stores that the mutations build.\<close>

definition childless :: "store \<Rightarrow> bool" where
  "childless s = (\<forall>k n. map_of s k = Some n \<longrightarrow> children n = [])"


text \<open>
  A leaf page 1 with five cells, inserted at the positions 0 to 4, and an interior page 2
  that names a child; the state after \<^verbatim>\<open>splitPage(1, 2, 2)\<close>.
\<close>

definition split_example :: visualizer where
  "split_example =
     (new_visualizer 800)\<lparr>nodes :=
        [(1, (fresh_node 1 1)\<lparr>cells :=
               [new_cell 0 16, new_cell 1 16, new_cell 2 16, new_cell 3 16, new_cell 4 16]\<rparr>),
         (2, (fresh_node 2 0)\<lparr>children := [7]\<rparr>)]\<rparr>"

definition split_after :: visualizer where
  "split_after =
     (new_visualizer 800)\<lparr>nodes :=
        [(1, (fresh_node 1 1)\<lparr>cells := [new_cell 0 16, new_cell 1 16],
               node_x := 320, node_y := 50\<rparr>),
         (2, (fresh_node 2 1)\<lparr>cells := [new_cell 2 16, new_cell 3 16, new_cell 4 16]\<rparr>)],
      highlightedNodes := {1, 2},
      timers := [\<lparr>started = 0, delay = 1000, clears = [1, 2]\<rparr>]\<rparr>"






text \<open>
  The application after \<^verbatim>\<open>connectEvents\<close>, before any event, on a canvas 800 wide.
\<close>

definition app_start :: "manager \<times> visualizer" where
  "app_start = (connectEvents new_manager, new_visualizer 800)"



text \<open>A store that holds the root alone, on a canvas 800 wide, before and after a layout.\<close>

definition lone_root :: visualizer where
  "lone_root = (new_visualizer 800)\<lparr>nodes := [(1, fresh_node 1 1)]\<rparr>"

definition lone_root_placed :: visualizer where
  "lone_root_placed =
     (new_visualizer 800)\<lparr>nodes := [(1, (fresh_node 1 1)\<lparr>node_x := 320, node_y := 50\<rparr>)]\<rparr>"

section \<open>The loop of buildLevels\<close>

lemma push_level_new: "length lv = l \<Longrightarrow> push_level lv l k = lv @ [Some [k]]"
  by (simp add: push_level_def)

lemma push_level_last:
  "length lv0 = l \<Longrightarrow> push_level (lv0 @ [Some c]) l k = lv0 @ [Some (c @ [k])]"
  by (simp add: push_level_def nth_append list_update_append)

lemma next_level_Cons: "next_level s (k # a) = kids s k @ next_level s a"
  by (simp add: next_level_def)

lemma next_level_Nil: "next_level s [] = []"
  by (simp add: next_level_def)

lemma bfs_loop_level:
  "length lv0 = l \<Longrightarrow>
   bfs_loop s (map (\<lambda>k. (k, l)) a @ map (\<lambda>k. (k, Suc l)) b) (lv0 @ [Some c]) =
   bfs_loop s (map (\<lambda>k. (k, Suc l)) (b @ next_level s a)) (lv0 @ [Some (c @ a)])"
proof (induction a arbitrary: b c)
  case Nil
  then show ?case by (simp add: next_level_Nil)
next
  case (Cons k a)
  have "bfs_loop s (map (\<lambda>k. (k, l)) (k # a) @ map (\<lambda>k. (k, Suc l)) b) (lv0 @ [Some c]) =
        bfs_loop s (map (\<lambda>k. (k, l)) a @ map (\<lambda>k. (k, Suc l)) (b @ kids s k))
          (lv0 @ [Some (c @ [k])])"
    using Cons.prems by (subst bfs_loop.simps) (simp add: push_level_last)
  also have "\<dots> = bfs_loop s (map (\<lambda>k. (k, Suc l)) ((b @ kids s k) @ next_level s a))
          (lv0 @ [Some ((c @ [k]) @ a)])"
    by (rule Cons.IH [OF Cons.prems])
  finally show ?case by (simp add: next_level_Cons)
qed

lemma bfs_loop_start_level:
  assumes "a \<noteq> []" "length lv = l"
  shows "bfs_loop s (map (\<lambda>k. (k, l)) a) lv =
         bfs_loop s (map (\<lambda>k. (k, Suc l)) (next_level s a)) (lv @ [Some a])"
proof -
  obtain k a' where a: "a = k # a'" using assms(1) by (cases a) auto
  have "bfs_loop s (map (\<lambda>k. (k, l)) a) lv =
        bfs_loop s (map (\<lambda>k. (k, l)) a' @ map (\<lambda>k. (k, Suc l)) (kids s k)) (lv @ [Some [k]])"
    unfolding a using assms(2) by (subst bfs_loop.simps) (simp add: push_level_new)
  also have "\<dots> = bfs_loop s (map (\<lambda>k. (k, Suc l)) (kids s k @ next_level s a'))
        (lv @ [Some ([k] @ a')])"
    by (rule bfs_loop_level [OF assms(2)])
  finally show ?thesis by (simp add: a next_level_Cons)
qed

lemma bfs_loop_complete:
  "level_chain s a rest \<Longrightarrow> length lv = l \<Longrightarrow>
   bfs_loop s (map (\<lambda>k. (k, l)) a) lv = Some (lv @ rest)"
proof (induction rest arbitrary: a lv l)
  case Nil
  then show ?case by (simp add: bfs_loop.simps)
next
  case (Cons x rest)
  from Cons.prems(1) have a: "a \<noteq> []" and x: "x = Some a"
    and ch: "level_chain s (next_level s a) rest" by auto
  have "bfs_loop s (map (\<lambda>k. (k, l)) a) lv =
        bfs_loop s (map (\<lambda>k. (k, Suc l)) (next_level s a)) (lv @ [Some a])"
    by (rule bfs_loop_start_level [OF a Cons.prems(2)])
  also have "\<dots> = Some ((lv @ [Some a]) @ rest)"
    by (rule Cons.IH [OF ch]) (simp add: Cons.prems(2))
  finally show ?case by (simp add: x)
qed

lemma bfs_loop_sound_aux:
  assumes "bfs_loop s q lv = Some res"
  shows "bfs_post s q lv res"
proof (rule bfs_loop.raw_induct [where P = bfs_post, OF _ assms])
  fix bfs s q lv res
  assume IH: "\<And>s q lv res. bfs s q lv = Some res \<Longrightarrow> bfs_post s q lv res"
    and step: "(case q of [] \<Rightarrow> Some lv
                | (k, level) # rest \<Rightarrow>
                    bfs s (rest @ map (\<lambda>childPage. (childPage, level + 1)) (kids s k))
                      (push_level lv level k)) = Some res"
  show "bfs_post s q lv res"
    unfolding bfs_post_def
  proof (intro allI impI)
    fix l a b lv0 c
    assume q: "q = map (\<lambda>k. (k, l)) a @ map (\<lambda>k. (k, Suc l)) b"
      and lv: "lv = lv0 @ [Some c]" and l: "length lv0 = l"
    show "\<exists>rest. res = lv0 @ [Some (c @ a)] @ rest \<and> level_chain s (b @ next_level s a) rest"
    proof (cases a)
      case (Cons k a')
      with step q lv l have
        "bfs s (map (\<lambda>k. (k, l)) a' @ map (\<lambda>k. (k, Suc l)) (b @ kids s k))
           (lv0 @ [Some (c @ [k])]) = Some res"
        by (simp add: push_level_last)
      from IH [OF this, unfolded bfs_post_def, rule_format, OF refl refl l] show ?thesis
        by (simp add: Cons next_level_Cons)
    next
      case Nil
      note aN = Nil
      show ?thesis
      proof (cases b)
        case Nil
        with aN step q lv have "res = lv0 @ [Some (c @ a)] @ []" by auto
        then show ?thesis using aN Nil by (auto simp add: next_level_Nil)
      next
        case (Cons k b')
        have len: "length (lv0 @ [Some c]) = Suc l" using l by simp
        from Cons aN step q lv have
          "bfs s (map (\<lambda>k. (k, Suc l)) b' @ map (\<lambda>k. (k, Suc (Suc l))) (kids s k))
             ((lv0 @ [Some c]) @ [Some [k]]) = Some res"
          by (simp add: push_level_new [OF len])
        from IH [OF this, unfolded bfs_post_def, rule_format, OF refl refl len] obtain rest where
          "res = (lv0 @ [Some c]) @ [Some ([k] @ b')] @ rest"
          "level_chain s (kids s k @ next_level s b') rest" by blast
        then show ?thesis
          by (simp add: aN Cons next_level_Nil next_level_Cons)
      qed
    qed
  qed
qed

lemma bfs_loop_sound:
  "bfs_loop s (map (\<lambda>k. (k, l)) a @ map (\<lambda>k. (k, Suc l)) b) (lv0 @ [Some c]) = Some res \<Longrightarrow>
   length lv0 = l \<Longrightarrow>
   \<exists>rest. res = lv0 @ [Some (c @ a)] @ rest \<and> level_chain s (b @ next_level s a) rest"
  using bfs_loop_sound_aux [of s _ _ res] unfolding bfs_post_def by blast

lemma buildLevels_iff: "buildLevels s r = Some lv \<longleftrightarrow> level_chain s [r] lv"
proof
  assume "level_chain s [r] lv"
  from bfs_loop_complete [OF this, of "[]" 0] show "buildLevels s r = Some lv"
    by (simp add: buildLevels_def)
next
  assume "buildLevels s r = Some lv"
  then have "bfs_loop s (map (\<lambda>k. (k, 0)) [] @ map (\<lambda>k. (k, Suc 0)) (kids s r)) ([] @ [Some [r]]) = Some lv"
    unfolding buildLevels_def by (subst (asm) bfs_loop.simps) (simp add: push_level_new)
  from bfs_loop_sound [OF this] obtain rest where
    "lv = [Some [r]] @ rest" "level_chain s (kids s r @ next_level s []) rest" by auto
  then show "level_chain s [r] lv"
    by (simp add: next_level_def)
qed

section \<open>Termination of the traversal\<close>

lemma edges_iff: "(k, c) \<in> edges s \<longleftrightarrow> c \<in> set (kids s k)"
  by (simp add: edges_def)

lemma kids_dom:
  assumes "c \<in> set (kids s k)"
  shows "k \<in> fst ` set s \<and> c \<in> fst ` set s"
proof -
  from assms have "map_of s k \<noteq> None"
    by (cases "map_of s k") (auto simp: kids_def)
  moreover from assms have "map_of s c \<noteq> None"
    by (cases "map_of s k") (auto simp: kids_def)
  ultimately show ?thesis by (simp add: map_of_eq_None_iff)
qed

lemma finite_edges: "finite (edges s)"
proof (rule finite_subset)
  show "edges s \<subseteq> (fst ` set s) \<times> (fst ` set s)"
    using kids_dom by (auto simp: edges_iff)
qed simp

lemma acyclic_from_kid:
  assumes "acyclic_from s k" "c \<in> set (kids s k)"
  shows "acyclic_from s c"
  unfolding acyclic_from_def
proof (intro allI impI)
  fix n assume "(c, n) \<in> (edges s)\<^sup>*"
  with assms(2) have "(k, n) \<in> (edges s)\<^sup>*"
    by (meson converse_rtrancl_into_rtrancl edges_iff)
  with assms(1) show "(n, n) \<notin> (edges s)\<^sup>+" by (simp add: acyclic_from_def)
qed

lemma acyclic_from_step:
  assumes "\<forall>c \<in> set (kids s k). acyclic_from s c"
  shows "acyclic_from s k"
  unfolding acyclic_from_def
proof (intro allI impI)
  fix n assume kn: "(k, n) \<in> (edges s)\<^sup>*"
  show "(n, n) \<notin> (edges s)\<^sup>+"
  proof (cases "n = k")
    case False
    with kn obtain c where c: "(k, c) \<in> edges s" "(c, n) \<in> (edges s)\<^sup>*"
      by (auto elim: converse_rtranclE)
    with assms show ?thesis by (auto simp: edges_iff acyclic_from_def)
  next
    case True
    show ?thesis
    proof
      assume "(n, n) \<in> (edges s)\<^sup>+"
      then obtain c where c: "(k, c) \<in> edges s" "(c, k) \<in> (edges s)\<^sup>*"
        unfolding True by (meson tranclD)
      then have "(k, k) \<in> (edges s)\<^sup>+" by (meson rtrancl_into_trancl2)
      with c assms show False by (auto simp: edges_iff acyclic_from_def)
    qed
  qed
qed

lemma level_chain_acyclic:
  "level_chain s a rest \<Longrightarrow> k \<in> set a \<Longrightarrow> acyclic_from s k"
proof (induction rest arbitrary: a k)
  case Nil
  then show ?case by simp
next
  case (Cons x rest)
  then have ch: "level_chain s (next_level s a) rest" by simp
  show ?case
  proof (rule acyclic_from_step, rule ballI)
    fix c assume "c \<in> set (kids s k)"
    with Cons.prems(2) have "c \<in> set (next_level s a)" by (auto simp: next_level_def)
    with Cons.IH [OF ch] show "acyclic_from s c" .
  qed
qed

lemma acyclic_level_chain:
  assumes "\<forall>k \<in> set a. acyclic_from s k"
  shows "\<exists>rest. level_chain s a rest"
proof -
  define R where "R = {n. \<exists>k \<in> set a. (k, n) \<in> (edges s)\<^sup>*}"
  define r where "r = {(c, k). k \<in> R \<and> (k, c) \<in> edges s}"
  have R_closed: "c \<in> R" if "k \<in> R" "(k, c) \<in> edges s" for k c
    using that unfolding R_def by (auto intro: rtrancl_into_rtrancl)
  have R_acyclic: "(n, n) \<notin> (edges s)\<^sup>+" if "n \<in> R" for n
    using that assms unfolding R_def acyclic_from_def by auto
  have r_sub: "r \<subseteq> (edges s)\<inverse>" by (auto simp: r_def)
  have "finite ((edges s)\<inverse>)" by (simp add: finite_edges)
  with r_sub have fin: "finite r" by (rule finite_subset)
  have "r\<^sup>+ \<subseteq> ((edges s)\<inverse>)\<^sup>+" using r_sub by (rule trancl_mono_subset)
  then have sub: "r\<^sup>+ \<subseteq> ((edges s)\<^sup>+)\<inverse>" by (simp add: trancl_converse)
  have "acyclic r"
    unfolding acyclic_def
  proof (intro allI notI)
    fix x assume x: "(x, x) \<in> r\<^sup>+"
    then obtain y where "(x, y) \<in> r" by (auto dest: tranclD)
    then have "x \<in> R" using R_closed by (auto simp: r_def)
    moreover from x sub have "(x, x) \<in> (edges s)\<^sup>+" by auto
    ultimately show False using R_acyclic by blast
  qed
  with fin have "wf r" by (rule finite_acyclic_wf)
  then have wf: "wf (mult r)" by (rule wf_mult)
  have main: "\<forall>b. M = mset b \<longrightarrow> set b \<subseteq> R \<longrightarrow> (\<exists>rest. level_chain s b rest)" for M
    using wf
  proof (induct M rule: wf_induct_rule)
    case (less M)
    show ?case
    proof (intro allI impI)
      fix b assume M: "M = mset b" and bR: "set b \<subseteq> R"
      show "\<exists>rest. level_chain s b rest"
      proof (cases "b = []")
        case True
        then have "level_chain s b []" by simp
        then show ?thesis ..
      next
        case False
        have "\<forall>c \<in># mset (next_level s b). \<exists>k \<in># mset b. (c, k) \<in> r"
          using bR by (auto simp: next_level_def r_def edges_iff)
        moreover have "mset b \<noteq> {#}" using False by simp
        ultimately have "({#} + mset (next_level s b), {#} + mset b) \<in> mult r"
          by (rule one_step_implies_mult [rotated])
        then have m: "(mset (next_level s b), M) \<in> mult r" by (simp add: M)
        have nR: "set (next_level s b) \<subseteq> R"
          using bR R_closed by (auto simp: next_level_def edges_iff)
        from less [OF m, rule_format, OF refl nR]
        obtain rest where "level_chain s (next_level s b) rest" ..
        with False have "level_chain s b (Some b # rest)" by simp
        then show ?thesis ..
      qed
    qed
  qed
  have "set a \<subseteq> R" by (auto simp: R_def)
  with main [of "mset a"] show ?thesis by blast
qed

lemma buildLevels_terminates_iff:
  "(\<exists>lv. buildLevels s r = Some lv) \<longleftrightarrow> acyclic_from s r"
proof
  assume "\<exists>lv. buildLevels s r = Some lv"
  then obtain lv where "level_chain s [r] lv" by (auto simp: buildLevels_iff)
  from level_chain_acyclic [OF this] show "acyclic_from s r" by simp
next
  assume "acyclic_from s r"
  then have "\<exists>rest. level_chain s [r] rest" by (intro acyclic_level_chain) simp
  then show "\<exists>lv. buildLevels s r = Some lv" by (simp add: buildLevels_iff)
qed

section \<open>What a layout leaves unchanged\<close>

lemma map_of_skeleton: "map_of (skeleton s) k = map_option strip (map_of s k)"
  by (induction s) (auto simp: skeleton_def)

lemma skeleton_lookup:
  assumes "skeleton s' = skeleton s" and "\<And>n. f (strip n) = f n"
  shows "map_option f (map_of s' k) = map_option f (map_of s k)"
proof -
  have "map_option f (map_of t k) = map_option f (map_of (skeleton t) k)" for t
    by (simp add: map_of_skeleton option.map_comp comp_def assms(2))
  from this [of s'] this [of s] show ?thesis by (simp only: assms(1))
qed

lemma skeleton_dom:
  assumes "skeleton s' = skeleton s"
  shows "map_of s' k = None \<longleftrightarrow> map_of s k = None"
  using skeleton_lookup [OF assms, of "\<lambda>_. ()" k] by (cases "map_of s' k"; cases "map_of s k") auto

lemma skeleton_keys: "map fst (skeleton s) = map fst s"
  by (induction s) (auto simp: skeleton_def)

lemma kids_skeleton:
  assumes "skeleton s' = skeleton s"
  shows "kids s' k = kids s k"
proof -
  have c: "map_option children (map_of s' k) = map_option children (map_of s k)"
    by (rule skeleton_lookup [OF assms]) (simp add: strip_def)
  have d: "(map_of s' c = None) = (map_of s c = None)" for c
    by (rule skeleton_dom [OF assms])
  show ?thesis
  proof (cases "map_of s k")
    case None
    with d [of k] show ?thesis by (simp add: kids_def)
  next
    case (Some n)
    with d [of k] obtain n' where n': "map_of s' k = Some n'" by auto
    with c Some have "children n' = children n" by simp
    with Some n' show ?thesis by (simp add: kids_def d)
  qed
qed

lemma level_chain_cong:
  assumes "\<And>k. kids s' k = kids s k"
  shows "level_chain s' a ls = level_chain s a ls"
proof -
  have "kids s' = kids s" by (rule ext) (rule assms)
  then have "next_level s' b = next_level s b" for b by (simp add: next_level_def)
  then show ?thesis by (induction ls arbitrary: a) auto
qed

lemma buildLevels_cong:
  assumes "\<And>k. kids s' k = kids s k"
  shows "buildLevels s' r = buildLevels s r"
proof -
  have eq: "(buildLevels s' r = Some lv) = (buildLevels s r = Some lv)" for lv
    by (simp add: buildLevels_iff level_chain_cong [OF assms])
  show ?thesis
  proof (cases "buildLevels s r")
    case None
    with eq have "buildLevels s' r \<noteq> Some lv" for lv by simp
    then have "buildLevels s' r = None" by (cases "buildLevels s' r") auto
    with None show ?thesis by simp
  next
    case (Some lv)
    with eq [of lv] show ?thesis by simp
  qed
qed

lemma acyclic_from_cong:
  assumes "\<And>k. kids s' k = kids s k"
  shows "acyclic_from s' r = acyclic_from s r"
proof -
  have "kids s' = kids s" by (rule ext) (rule assms)
  then show ?thesis by (simp add: acyclic_from_def edges_def)
qed

lemma skeleton_place_entry:
  "skeleton (AList.map_entry k (\<lambda>n. n\<lparr>node_x := a, node_y := b\<rparr>) s) = skeleton s"
  by (induction s) (auto simp: skeleton_def strip_def)

lemma skeleton_place_nodes: "skeleton (place_nodes cx cy ks s) = skeleton s"
  by (induction cx cy ks s rule: place_nodes.induct) (simp_all add: skeleton_place_entry)

lemma skeleton_place_levels: "skeleton (place_levels w cy ls s) = skeleton s"
  by (induction w cy ls s rule: place_levels.induct) (simp_all add: skeleton_place_nodes Let_def)

lemma layout_Some:
  assumes "layout v = Some v'"
  shows "skeleton (nodes v') = skeleton (nodes v) \<and> v' = v\<lparr>nodes := nodes v'\<rparr>"
  using assms
  by (auto simp: layout_def skeleton_place_levels split: if_splits option.splits)

lemma acyclic_from_no_kids: "kids s r = [] \<Longrightarrow> acyclic_from s r"
  by (rule acyclic_from_step) simp

lemma layout_returns_iff: "(\<exists>v'. layout v = Some v') \<longleftrightarrow> acyclic_from (nodes v) (rootPage v)"
proof (cases "map_of (nodes v) (rootPage v)")
  case None
  then have "kids (nodes v) (rootPage v) = []" by (simp add: kids_def)
  then have "acyclic_from (nodes v) (rootPage v)" by (rule acyclic_from_no_kids)
  with None show ?thesis by (simp add: layout_def)
next
  case (Some n)
  then have "nodes v \<noteq> []" by auto
  with Some show ?thesis
    using buildLevels_terminates_iff [of "nodes v" "rootPage v"]
    by (auto simp: layout_def split: option.splits)
qed

section \<open>Mutations and the graph of child references\<close>

lemma layout_fields:
  assumes "layout w = Some v'"
  shows "skeleton (nodes v') = skeleton (nodes w)" "rootPage v' = rootPage w"
    "pageSize v' = pageSize w" "showTransitions v' = showTransitions w"
    "animationSpeed v' = animationSpeed w" "highlightedNodes v' = highlightedNodes w"
    "timers v' = timers w" "clock v' = clock w" "clientWidth v' = clientWidth w"
proof -
  from layout_Some [OF assms] have s: "skeleton (nodes v') = skeleton (nodes w)"
    and v': "v' = w\<lparr>nodes := nodes v'\<rparr>" by auto
  show "skeleton (nodes v') = skeleton (nodes w)" by (rule s)
  show "rootPage v' = rootPage w" by (subst v') simp
  show "pageSize v' = pageSize w" by (subst v') simp
  show "showTransitions v' = showTransitions w" by (subst v') simp
  show "animationSpeed v' = animationSpeed w" by (subst v') simp
  show "highlightedNodes v' = highlightedNodes w" by (subst v') simp
  show "timers v' = timers w" by (subst v') simp
  show "clock v' = clock w" by (subst v') simp
  show "clientWidth v' = clientWidth w" by (subst v') simp
qed

lemma layout_data_of: "layout w = Some v' \<Longrightarrow> data_of v' p = data_of w p"
  by (simp add: data_of_def map_of_skeleton [symmetric] layout_fields(1))

lemma skeleton_map_entry:
  assumes "\<And>n. strip (f n) = f (strip n)"
  shows "skeleton (AList.map_entry p f s) = AList.map_entry p f (skeleton s)"
  by (induction s) (auto simp: skeleton_def assms)

lemma skeleton_update:
  "skeleton (AList.update p n s) = AList.update p (strip n) (skeleton s)"
  by (induction s) (auto simp: skeleton_def)

lemma skeleton_delete: "skeleton (AList.delete p s) = AList.delete p (skeleton s)"
  by (induction s) (auto simp: skeleton_def)

lemma strip_fresh: "strip (fresh_node p t) = fresh_node p t"
  by (simp add: strip_def fresh_node_def)

lemma kids_map_entry:
  assumes "\<And>n. children (f n) = children n"
  shows "kids (AList.map_entry p f s) k = kids s k"
proof -
  have d: "(map_of (AList.map_entry p f s) c = None) = (map_of s c = None)" for c
    by (simp add: map_of_map_entry split: option.splits)
  have m: "map_of (AList.map_entry p f s) k =
           (if k = p then map_option f (map_of s p) else map_of s k)"
    by (simp add: map_of_map_entry split: option.splits)
  show ?thesis
    unfolding kids_def d m by (cases "map_of s k") (auto simp: assms)
qed

lemma edges_delete: "edges (AList.delete p s) \<subseteq> edges s"
  by (auto simp: edges_def kids_def delete_conv' split: option.splits if_splits)

lemma acyclic_from_mono:
  assumes "edges s' \<subseteq> edges s" "acyclic_from s r"
  shows "acyclic_from s' r"
  unfolding acyclic_from_def
proof (intro allI impI)
  fix n assume "(r, n) \<in> (edges s')\<^sup>*"
  with assms(1) have "(r, n) \<in> (edges s)\<^sup>*" by (meson rtrancl_mono subsetD)
  with assms(2) have "(n, n) \<notin> (edges s)\<^sup>+" by (simp add: acyclic_from_def)
  with assms(1) show "(n, n) \<notin> (edges s')\<^sup>+" by (meson trancl_mono)
qed

lemma acyclic_from_delete: "acyclic_from s r \<Longrightarrow> acyclic_from (AList.delete p s) r"
  by (rule acyclic_from_mono [OF edges_delete])

lemma acyclic_from_update_fresh:
  assumes "acyclic_from s r"
  shows "acyclic_from (AList.update p (fresh_node p t) s) r"
proof -
  let ?s = "AList.update p (fresh_node p t) s"
  have no_out: "(p, c) \<notin> edges ?s" for c
    by (simp add: edges_def kids_def update_conv' fresh_node_def)
  have old: "(k, c) \<in> edges s" if "(k, c) \<in> edges ?s" "c \<noteq> p" for k c
  proof -
    from that(1) no_out have "k \<noteq> p" by auto
    with that show ?thesis
      by (auto simp: edges_def kids_def update_conv' split: option.splits if_splits)
  qed
  have star: "(a, b) \<in> (edges ?s)\<^sup>* \<Longrightarrow> b \<noteq> p \<Longrightarrow> (a, b) \<in> (edges s)\<^sup>*" for a b
  proof (induction rule: rtrancl_induct)
    case base
    show ?case by simp
  next
    case (step y z)
    from step.hyps(2) no_out have "y \<noteq> p" by auto
    with step old show ?case by (meson rtrancl.rtrancl_into_rtrancl)
  qed
  have plus: "(a, b) \<in> (edges ?s)\<^sup>+ \<Longrightarrow> b \<noteq> p \<Longrightarrow> (a, b) \<in> (edges s)\<^sup>+" for a b
  proof -
    assume ab: "(a, b) \<in> (edges ?s)\<^sup>+" and b: "b \<noteq> p"
    from ab obtain y where y: "(a, y) \<in> (edges ?s)\<^sup>*" "(y, b) \<in> edges ?s"
      by (meson tranclD2)
    from y(2) no_out have "y \<noteq> p" by auto
    with y b star old show ?thesis by (meson rtrancl_into_trancl1)
  qed
  show ?thesis
    unfolding acyclic_from_def
  proof (intro allI impI notI)
    fix n assume rn: "(r, n) \<in> (edges ?s)\<^sup>*" and nn: "(n, n) \<in> (edges ?s)\<^sup>+"
    from nn no_out have "n \<noteq> p" by (auto dest: tranclD)
    with rn nn star plus have "(r, n) \<in> (edges s)\<^sup>*" "(n, n) \<in> (edges s)\<^sup>+" by auto
    with assms show False by (simp add: acyclic_from_def)
  qed
qed

lemma addPage_fresh:
  "addPage v p t = layout (v\<lparr>nodes := AList.update p (fresh_node p t) (nodes v)\<rparr>)"
  by (simp add: addPage_def)

lemma data_of_skeleton: "data_of v p = map_of (skeleton (nodes v)) p"
  by (simp add: data_of_def map_of_skeleton)

lemma map_fst_map_entry: "map fst (AList.map_entry k f s) = map fst s"
  by (induction s) auto

lemma keys_of_skeleton_eq:
  assumes "skeleton s' = skeleton s"
  shows "map fst s' = map fst s"
  using skeleton_keys [of s'] skeleton_keys [of s] assms by simp

lemma level_chain_resolves:
  "level_chain s a lv \<Longrightarrow> \<forall>k \<in> set a. map_of s k \<noteq> None \<Longrightarrow>
   Some ks \<in> set lv \<Longrightarrow> k \<in> set ks \<Longrightarrow> map_of s k \<noteq> None"
proof (induction lv arbitrary: a)
  case Nil
  then show ?case by simp
next
  case (Cons l lv)
  from Cons.prems(1) have l: "l = Some a" and ch: "level_chain s (next_level s a) lv" by auto
  have nx: "\<forall>k \<in> set (next_level s a). map_of s k \<noteq> None"
    by (auto simp: next_level_def kids_def split: option.splits)
  show ?case
  proof (cases "Some ks = l")
    case True
    with l Cons.prems(2,4) show ?thesis by auto
  next
    case False
    with Cons.prems(3) have "Some ks \<in> set lv" by auto
    from Cons.IH [OF ch nx this Cons.prems(4)] show ?thesis .
  qed
qed

lemma concat_skip: "f p = [] \<Longrightarrow> concat (map f (removeAll p cs)) = concat (map f cs)"
  by (induction cs) auto

lemma drawConnections_skip:
  assumes "map_of s p = None"
  shows "drawConnections s (n\<lparr>children := removeAll p (children n)\<rparr>) = drawConnections s n"
  by (simp add: drawConnections_def cong: option.case_cong) (rule concat_skip, simp add: assms)


lemma childless_kids: "childless s \<Longrightarrow> kids s k = []"
  by (auto simp: childless_def kids_def split: option.splits)

lemma childless_acyclic: "childless s \<Longrightarrow> acyclic_from s r"
  by (rule acyclic_from_no_kids) (rule childless_kids)

lemma childless_skeleton:
  assumes "skeleton s' = skeleton s" "childless s"
  shows "childless s'"
  unfolding childless_def
proof (intro allI impI)
  fix k n assume n: "map_of s' k = Some n"
  have "map_option children (map_of s' k) = map_option children (map_of s k)"
    by (rule skeleton_lookup [OF assms(1)]) (simp add: strip_def)
  with n obtain m where "map_of s k = Some m" "children m = children n"
    by (cases "map_of s k") auto
  with assms(2) show "children n = []" by (auto simp: childless_def)
qed

lemma childless_update: "childless s \<Longrightarrow> childless (AList.update p (fresh_node p t) s)"
  by (auto simp: childless_def update_conv' fresh_node_def)

lemma childless_map_entry:
  assumes "childless s" "\<And>n. children (f n) = children n"
  shows "childless (AList.map_entry p f s)"
  using assms by (auto simp: childless_def map_of_map_entry split: option.splits if_splits)

lemma layout_childless:
  assumes "childless (nodes w)"
  shows "\<exists>v'. layout w = Some v' \<and> childless (nodes v')"
proof -
  from assms have "acyclic_from (nodes w) (rootPage w)" by (rule childless_acyclic)
  then obtain v' where l: "layout w = Some v'" using layout_returns_iff by blast
  from childless_skeleton [OF layout_fields(1) [OF l] assms] l show ?thesis by blast
qed

lemma addCell_layout:
  assumes "map_of (nodes v) p = Some n"
  shows "addCell v p i kl =
     layout ((if showTransitions v then animateInsertion v p i else v)
        \<lparr>nodes := AList.map_entry p
           (\<lambda>m. m\<lparr>cells := splice_insert (cells m) i (new_cell i kl)\<rparr>) (nodes v)\<rparr>)"
  using assms by (cases v) (simp add: addCell_def Let_def animateInsertion_def new_cell_def)

lemma deleteCell_layout:
  assumes "map_of (nodes v) p = Some n"
  shows "deleteCell v p i =
     layout ((if showTransitions v then animateDeletion v p i else v)
        \<lparr>nodes := AList.map_entry p (\<lambda>m. m\<lparr>cells := splice_delete1 (cells m) i\<rparr>) (nodes v)\<rparr>)"
  using assms by (cases v) (simp add: deleteCell_def Let_def animateDeletion_def)

lemma nodes_animate [simp]:
  "nodes (animateInsertion v p i) = nodes v" "nodes (animateDeletion v p i) = nodes v"
  "nodes (animateSplit v p q i) = nodes v"
  "rootPage (animateInsertion v p i) = rootPage v" "rootPage (animateDeletion v p i) = rootPage v"
  "rootPage (animateSplit v p q i) = rootPage v"
  by (simp_all add: animateInsertion_def animateDeletion_def animateSplit_def)


lemma apply_valid:
  assumes "childless (nodes v)" "valid_mutation v m"
  shows "\<exists>v'. apply_mutation v m = Some v' \<and> childless (nodes v')"
proof (cases m)
  case (Allocate p t)
  then show ?thesis
    using layout_childless [of "v\<lparr>nodes := AList.update p (fresh_node p t) (nodes v)\<rparr>"] assms(1)
    by (simp add: addPage_fresh childless_update)
next
  case (Insert p i kl)
  with assms(2) obtain n where n: "map_of (nodes v) p = Some n" by (auto split: option.splits)
  show ?thesis
    unfolding Insert apply_mutation.simps addCell_layout [OF n]
    by (rule layout_childless) (simp add: childless_map_entry assms(1))
next
  case (Delete p i)
  with assms(2) obtain n where n: "map_of (nodes v) p = Some n" by (auto split: option.splits)
  show ?thesis
    unfolding Delete apply_mutation.simps deleteCell_layout [OF n]
    by (rule layout_childless) (simp add: childless_map_entry assms(1))
qed (use assms(2) in auto)

lemma run_valid:
  "childless (nodes v) \<Longrightarrow> valid_run v ms \<Longrightarrow> \<exists>v'. run v ms = Some v' \<and> childless (nodes v')"
proof (induction ms arbitrary: v)
  case Nil
  then show ?case by simp
next
  case (Cons m ms)
  from Cons.prems(2) have vm: "valid_mutation v m" by simp
  from apply_valid [OF Cons.prems(1) vm] obtain v1 where
    v1: "apply_mutation v m = Some v1" "childless (nodes v1)" by blast
  with Cons.prems(2) have "valid_run v1 ms" by simp
  from Cons.IH [OF v1(2) this] v1(1) show ?case by simp
qed

lemma run_append:
  "run v (ms @ ms') = (case run v ms of None \<Rightarrow> None | Some v1 \<Rightarrow> run v1 ms')"
  by (induction ms arbitrary: v) (auto split: option.splits)


lemma splice_start_nonneg: "0 \<le> i \<Longrightarrow> splice_start len i = min (nat i) len"
  by (simp add: splice_start_def)


lemma splice_keep_removed: "splice_keep xs k @ splice_removed xs k = xs"
  by (simp add: splice_keep_def splice_removed_def)

lemma splice_keep_nonneg:
  "0 \<le> k \<Longrightarrow> splice_keep xs k = take (nat k) xs \<and> splice_removed xs k = drop (nat k) xs"
  by (simp add: splice_keep_def splice_removed_def splice_start_nonneg min_def)

lemma splitPage_layout:
  assumes "map_of (nodes v) f = Some src"
    and "layout (v\<lparr>nodes := AList.update t (fresh_node t (pageType src)) (nodes v)\<rparr>) = Some v1"
  shows "splitPage v f t k =
     layout ((if showTransitions v then animateSplit v1 f t k else v1)
       \<lparr>nodes := AList.map_entry t (\<lambda>n. n\<lparr>cells := splice_removed (cells src) k\<rparr>)
          (if t = f then nodes v1
           else AList.map_entry f (\<lambda>n. n\<lparr>cells := splice_keep (cells n) k\<rparr>) (nodes v1))\<rparr>)"
  using assms layout_fields(4) [OF assms(2)]
  by (cases v1) (simp add: splitPage_def addPage_fresh Let_def animateSplit_def)

lemma splitPage_None:
  assumes "map_of (nodes v) f = Some src"
    and "layout (v\<lparr>nodes := AList.update t (fresh_node t (pageType src)) (nodes v)\<rparr>) = None"
  shows "splitPage v f t k = None"
  using assms by (simp add: splitPage_def addPage_fresh)

lemma splitPage_returns:
  assumes "map_of (nodes v) f = Some src" and a: "acyclic_from (nodes v) (rootPage v)"
  shows "splitPage v f t k \<noteq> None"
proof -
  let ?fresh = "fresh_node t (pageType src)"
  let ?w = "v\<lparr>nodes := AList.update t ?fresh (nodes v)\<rparr>"
  let ?mv = "\<lambda>n. n\<lparr>cells := splice_removed (cells src) k\<rparr>"
  let ?kp = "\<lambda>n. n\<lparr>cells := splice_keep (cells n) k\<rparr>"
  let ?s2 = "\<lambda>v1. AList.map_entry t ?mv
          (if t = f then nodes v1 else AList.map_entry f ?kp (nodes v1))"
  have kids_s2: "kids (?s2 v1) q = kids (nodes v1) q" for v1 q
    by (simp add: kids_map_entry)
  from a have "acyclic_from (nodes ?w) (rootPage ?w)"
    by (simp add: acyclic_from_update_fresh)
  then obtain v1 where v1: "layout ?w = Some v1" using layout_returns_iff by blast
  let ?w3 = "(if showTransitions v then animateSplit v1 f t k else v1)\<lparr>nodes := ?s2 v1\<rparr>"
  have "kids (nodes v1) q = kids (nodes ?w) q" for q
    by (rule kids_skeleton [OF layout_fields(1) [OF v1]])
  then have "kids (nodes ?w3) q = kids (nodes ?w) q" for q
    using kids_s2 [of v1 q] by simp
  then have "acyclic_from (nodes ?w3) (rootPage v) = acyclic_from (nodes ?w) (rootPage v)"
    by (rule acyclic_from_cong)
  moreover have "rootPage ?w3 = rootPage v"
    using layout_fields(2) [OF v1] by simp
  ultimately have "acyclic_from (nodes ?w3) (rootPage ?w3)"
    using \<open>acyclic_from (nodes ?w) (rootPage ?w)\<close> by simp
  then obtain v' where "layout ?w3 = Some v'" using layout_returns_iff by blast
  then show ?thesis by (simp add: splitPage_layout [OF assms(1) v1])
qed









lemma listeners_connectEvents:
  "listeners (connectEvents new_manager) =
     [(Code 0, [listener 0]), (Code 6, [listener 6]), (Code 7, [listener 7]),
      (Code 2, [listener 2]), (Code 3, [listener 3]), (Code 4, [listener 4])]"
  by (simp add: connectEvents_def on_def new_manager_def callbacks_for_def)

lemma no_callbacks:
  assumes "listeners m = listeners (connectEvents new_manager)" and "code < 0 \<or> 13 < code"
  shows "callbacks_for (m\<lparr>eventCount := c, events := es\<rparr>) (Code code) = []"
    and "callbacks_for (m\<lparr>eventCount := c, events := es\<rparr>) Star = []"
  using assms by (auto simp: callbacks_for_def listeners_connectEvents)

lemma unknown_names:
  assumes "code < 0 \<or> 13 < code"
  shows "eventTypeNames code = None" "eventCategories code = None"
  using assms by (auto simp: eventTypeNames_def eventCategories_def)







section \<open>Claims\<close>

subsection \<open>The levels that buildLevels returns\<close>

text \<open>
  C5, as stated, fails: \<^verbatim>\<open>buildLevels\<close> keeps no record of the nodes it has seen, and a node
  with two parents is placed twice.
\<close>

theorem buildLevels_places_shared_node_twice:
  "buildLevels diamond 1 = Some [Some [1], Some [2, 3], Some [4, 4]]"
  by (simp add: buildLevels_def diamond_def fresh_node_def bfs_loop.simps kids_def push_level_def)

text \<open>
  C5, amended: \<^verbatim>\<open>buildLevels\<close> returns the levels of a breadth-first traversal from the
  root. Level 0 is the root alone; each further level lists, parent by parent in the order
  of the level before, the children of each parent that resolve to a node, in the order of
  its \<^verbatim>\<open>children\<close> array; the last level is the first whose nodes have no such child.
  Nothing is left out for having been placed before, so a node is listed once for
  every reference that reaches it.
\<close>

theorem buildLevels_levels:
  "buildLevels s r = Some levels \<longleftrightarrow> level_chain s [r] levels"
  by (rule buildLevels_iff)

theorem buildLevels_levels_witness:
  "level_chain diamond [1] [Some [1], Some [2, 3], Some [4, 4]]"
proof -
  have "buildLevels diamond 1 = Some [Some [1], Some [2, 3], Some [4, 4]]"
    by (simp add: buildLevels_def diamond_def fresh_node_def bfs_loop.simps kids_def
        push_level_def)
  with buildLevels_levels [of diamond 1 "[Some [1], Some [2, 3], Some [4, 4]]"]
  show ?thesis by blast
qed

subsection \<open>Termination of the layout\<close>

text \<open>
  C10: \<^verbatim>\<open>buildLevels\<close> returns exactly when no node that can be reached from the root
  along resolving child references lies on a cycle of such references, and so does
  \<^verbatim>\<open>layout\<close>.
\<close>

theorem buildLevels_terminates_iff_acyclic:
  "((\<exists>levels. buildLevels s r = Some levels) \<longleftrightarrow> acyclic_from s r) \<and>
   ((\<exists>v'. layout v = Some v') \<longleftrightarrow> acyclic_from (nodes v) (rootPage v))"
  by (simp add: buildLevels_terminates_iff layout_returns_iff)

theorem buildLevels_terminates_iff_acyclic_witness:
  "acyclic_from diamond 1 \<and> buildLevels diamond 1 \<noteq> None \<and>
   \<not> acyclic_from [(1, (fresh_node 1 0)\<lparr>children := [1]\<rparr>)] 1 \<and>
   buildLevels [(1, (fresh_node 1 0)\<lparr>children := [1]\<rparr>)] 1 = None"
proof -
  let ?loop = "[(1, (fresh_node 1 0)\<lparr>children := [1]\<rparr>)]"
  have d: "buildLevels diamond 1 = Some [Some [1], Some [2, 3], Some [4, 4]]"
    by (simp add: buildLevels_def diamond_def fresh_node_def bfs_loop.simps kids_def
        push_level_def)
  have "(1, 1) \<in> edges ?loop" by (simp add: edges_def kids_def fresh_node_def)
  then have "(1, 1) \<in> (edges ?loop)\<^sup>+" by (rule r_into_trancl)
  then have l: "\<not> acyclic_from ?loop 1" by (auto simp: acyclic_from_def)
  from d l buildLevels_terminates_iff_acyclic [of diamond 1]
    buildLevels_terminates_iff_acyclic [of ?loop 1]
  show ?thesis by auto
qed

subsection \<open>Layout of a single root\<close>

text \<open>
  C8, as stated, fails: on a canvas 800 wide the root is placed with its left edge at 320,
  so the rectangle of width 120 has its centre at 380, not at the centre 400 of the canvas.
\<close>

theorem lone_root_left_of_centre:
  "layout lone_root = Some lone_root_placed \<and>
   map_option node_x (map_of (nodes lone_root_placed) (rootPage lone_root_placed)) = Some 320 \<and>
   320 + nodeWidth / 2 = 380 \<and>
   rat_of_int (clientWidth lone_root_placed) / 2 = 400"
  by (simp add: lone_root_def lone_root_placed_def new_visualizer_def fresh_node_def
      layout_def buildLevels_def bfs_loop.simps kids_def push_level_def nodeWidth_def
      horizontalSpacing_def)

text \<open>
  C8, amended: when the store holds the root alone and the root has no children,
  \<^verbatim>\<open>layout\<close> returns, changes nothing but the root's coordinates, and places the root at
  the top margin 50 with its left edge at the left end of a level of extent
  \<open>1 * (nodeWidth + horizontalSpacing)\<close> that is centred within the width of the canvas.
  The extent includes the spacing after the node, so the centre of the node itself is half
  a spacing to the left of the centre of the canvas.
\<close>

theorem layout_single_root:
  assumes "nodes v = [(rootPage v, n)]" and "children n = []"
  shows "\<exists>n'. layout v = Some (v\<lparr>nodes := [(rootPage v, n')]\<rparr>) \<and>
           n' = n\<lparr>node_x := node_x n', node_y := node_y n'\<rparr> \<and>
           node_x n' = (of_int (clientWidth v) - 1 * (nodeWidth + horizontalSpacing)) / 2 \<and>
           node_x n' + (1 * (nodeWidth + horizontalSpacing)) / 2 = of_int (clientWidth v) / 2 \<and>
           node_x n' + nodeWidth / 2 = of_int (clientWidth v) / 2 - horizontalSpacing / 2 \<and>
           node_y n' = 50"
proof -
  define x where "x = (of_int (clientWidth v) - 1 * (nodeWidth + horizontalSpacing)) / 2"
  define n' where "n' = n\<lparr>node_x := x, node_y := 50\<rparr>"
  have l: "layout v = Some (v\<lparr>nodes := [(rootPage v, n')]\<rparr>)"
    using assms
    by (simp add: layout_def buildLevels_def bfs_loop.simps kids_def push_level_def n'_def
        x_def)
  have s: "n' = n\<lparr>node_x := node_x n', node_y := node_y n'\<rparr>" by (simp add: n'_def)
  have nx: "node_x n' = x" and ny: "node_y n' = 50" by (simp_all add: n'_def)
  have c: "x + (1 * (nodeWidth + horizontalSpacing)) / 2 = of_int (clientWidth v) / 2"
    by (simp add: x_def field_simps)
  have d: "x + nodeWidth / 2 = of_int (clientWidth v) / 2 - horizontalSpacing / 2"
    by (simp add: x_def field_simps)
  show ?thesis
  proof (rule exI [of _ n'], intro conjI)
    show "node_x n' = (of_int (clientWidth v) - 1 * (nodeWidth + horizontalSpacing)) / 2"
      by (simp only: nx x_def)
    show "node_x n' + (1 * (nodeWidth + horizontalSpacing)) / 2 = of_int (clientWidth v) / 2"
      by (simp only: nx c)
    show "node_x n' + nodeWidth / 2 = of_int (clientWidth v) / 2 - horizontalSpacing / 2"
      by (simp only: nx d)
  qed (rule l, rule s, rule ny)
qed

theorem layout_single_root_witness:
  "nodes lone_root = [(rootPage lone_root, fresh_node 1 1)] \<and>
   children (fresh_node 1 1) = [] \<and>
   layout lone_root = Some lone_root_placed"
proof -
  have h1: "nodes lone_root = [(rootPage lone_root, fresh_node 1 1)]"
    by (simp add: lone_root_def new_visualizer_def)
  have h2: "children (fresh_node 1 1) = []" by (simp add: fresh_node_def)
  from layout_single_root [OF h1 h2] obtain n' where
    l: "layout lone_root = Some (lone_root\<lparr>nodes := [(rootPage lone_root, n')]\<rparr>)"
    and n: "n' = (fresh_node 1 1)\<lparr>node_x := node_x n', node_y := node_y n'\<rparr>"
    and x: "node_x n' =
              (of_int (clientWidth lone_root) - 1 * (nodeWidth + horizontalSpacing)) / 2"
    and y: "node_y n' = 50" by blast
  from x have "node_x n' = 320"
    by (simp add: lone_root_def new_visualizer_def nodeWidth_def horizontalSpacing_def)
  with n y have "n' = (fresh_node 1 1)\<lparr>node_x := 320, node_y := 50\<rparr>" by simp
  with l h1 h2 show ?thesis
    by (simp add: lone_root_def lone_root_placed_def new_visualizer_def)
qed

subsection \<open>Clicks and the expanded flag\<close>

text \<open>
  C9, as stated, fails: after a click has collapsed the root, \<^verbatim>\<open>buildLevels\<close> still
  descends into its child.
\<close>

theorem click_collapse_keeps_subtree_in_layout:
  "click parent_and_child 10 10 = Some parent_collapsed \<and>
   map_option expanded (map_of (nodes parent_collapsed) 1) = Some False \<and>
   buildLevels (nodes parent_collapsed) (rootPage parent_collapsed) = Some [Some [1], Some [2]]"
  by (simp add: click_def getNodeAtPosition_def toggleNodeExpansion_def layout_def
      buildLevels_def bfs_loop.simps kids_def push_level_def parent_and_child_def
      parent_collapsed_def new_visualizer_def fresh_node_def nodeWidth_def nodeHeight_def
      horizontalSpacing_def levelHeight_def)

text \<open>
  C9, amended: a click that hits a node toggles that node's \<^verbatim>\<open>expanded\<close> flag and changes
  nothing else but coordinates; every node stays in the store, in the same order.
  \<^verbatim>\<open>layout\<close> does not read the flag: \<^verbatim>\<open>buildLevels\<close> gives the same levels after the click
  as before, so the subtree of a collapsed node is traversed and placed as that of an
  expanded one. The click returns whenever no node reachable from the root lies on a
  cycle.
\<close>

theorem toggle_only_flag:
  assumes "getNodeAtPosition v px py = Some k"
  shows "(acyclic_from (nodes v) (rootPage v) \<longrightarrow> click v px py \<noteq> None) \<and>
    (\<forall>v'. click v px py = Some v' \<longrightarrow>
       data_of v' k = map_option (\<lambda>n. n\<lparr>expanded := \<not> expanded n\<rparr>) (data_of v k) \<and>
       (\<forall>q. q \<noteq> k \<longrightarrow> data_of v' q = data_of v q) \<and>
       map fst (nodes v') = map fst (nodes v) \<and>
       buildLevels (nodes v') (rootPage v') = buildLevels (nodes v) (rootPage v))"
proof -
  let ?f = "\<lambda>n. n\<lparr>expanded := \<not> expanded n\<rparr>"
  let ?w = "v\<lparr>nodes := AList.map_entry k ?f (nodes v)\<rparr>"
  have click: "click v px py = layout ?w"
    using assms by (simp add: click_def toggleNodeExpansion_def)
  have kids_w: "kids (nodes ?w) q = kids (nodes v) q" for q
    by (simp add: kids_map_entry)
  have total: "click v px py \<noteq> None" if "acyclic_from (nodes v) (rootPage v)"
  proof -
    have "acyclic_from (nodes ?w) (rootPage v) = acyclic_from (nodes v) (rootPage v)"
      by (rule acyclic_from_cong) (rule kids_w)
    with that have "acyclic_from (nodes ?w) (rootPage ?w)" by simp
    then have "\<exists>v'. layout ?w = Some v'" by (simp only: layout_returns_iff)
    then show ?thesis by (simp only: click) auto
  qed
  have post: "data_of v' k = map_option ?f (data_of v k) \<and>
       (\<forall>q. q \<noteq> k \<longrightarrow> data_of v' q = data_of v q) \<and>
       map fst (nodes v') = map fst (nodes v) \<and>
       buildLevels (nodes v') (rootPage v') = buildLevels (nodes v) (rootPage v)"
    if "click v px py = Some v'" for v'
  proof -
    from that click have l: "layout ?w = Some v'" by simp
    have sk: "skeleton (nodes v') = AList.map_entry k ?f (skeleton (nodes v))"
      using layout_fields(1) [OF l] by (simp add: skeleton_map_entry strip_def)
    have kq: "kids (nodes v') q = kids (nodes v) q" for q
      using kids_skeleton [OF layout_fields(1) [OF l], of q] kids_w [of q] by simp
    have "buildLevels (nodes v') (rootPage v) = buildLevels (nodes v) (rootPage v)"
      by (rule buildLevels_cong) (rule kq)
    then have "buildLevels (nodes v') (rootPage v') = buildLevels (nodes v) (rootPage v)"
      using layout_fields(2) [OF l] by simp
    moreover have "map fst (nodes v') = map fst (nodes v)"
      using keys_of_skeleton_eq [OF layout_fields(1) [OF l]] by (simp add: map_fst_map_entry)
    moreover have "data_of v' k = map_option ?f (data_of v k)"
      by (simp add: data_of_skeleton sk map_of_map_entry split: option.splits)
    moreover have "\<forall>q. q \<noteq> k \<longrightarrow> data_of v' q = data_of v q"
      by (simp add: data_of_skeleton sk map_of_map_entry)
    ultimately show ?thesis by (intro conjI)
  qed
  show ?thesis
  proof (intro conjI impI allI)
    assume "acyclic_from (nodes v) (rootPage v)"
    then show "click v px py \<noteq> None" by (rule total)
  qed (use post in blast)+
qed

theorem toggle_only_flag_witness:
  "getNodeAtPosition parent_and_child 10 10 = Some 1 \<and>
   acyclic_from (nodes parent_and_child) (rootPage parent_and_child) \<and>
   click parent_and_child 10 10 \<noteq> None \<and>
   data_of parent_collapsed 1 =
     map_option (\<lambda>n. n\<lparr>expanded := \<not> expanded n\<rparr>) (data_of parent_and_child 1) \<and>
   data_of parent_collapsed 2 = data_of parent_and_child 2 \<and>
   buildLevels (nodes parent_collapsed) (rootPage parent_collapsed) =
     buildLevels (nodes parent_and_child) (rootPage parent_and_child)"
proof -
  have g: "getNodeAtPosition parent_and_child 10 10 = Some 1"
    by (simp add: getNodeAtPosition_def parent_and_child_def new_visualizer_def fresh_node_def
        nodeWidth_def nodeHeight_def)
  have "buildLevels (nodes parent_and_child) (rootPage parent_and_child) =
        Some [Some [1], Some [2]]"
    by (simp add: buildLevels_def bfs_loop.simps kids_def push_level_def parent_and_child_def
        new_visualizer_def fresh_node_def)
  then have a: "acyclic_from (nodes parent_and_child) (rootPage parent_and_child)"
    using buildLevels_terminates_iff by blast
  have c: "click parent_and_child 10 10 = Some parent_collapsed"
    by (simp add: click_def getNodeAtPosition_def toggleNodeExpansion_def layout_def
      buildLevels_def bfs_loop.simps kids_def push_level_def parent_and_child_def
      parent_collapsed_def new_visualizer_def fresh_node_def nodeWidth_def nodeHeight_def
      horizontalSpacing_def levelHeight_def)
  from toggle_only_flag [OF g] a c g show ?thesis by auto
qed

subsection \<open>Freeing a page\<close>

text \<open>
  C4: the listener of \<^verbatim>\<open>PAGE_FREE\<close> returns whenever no node reachable from the root lies on
  a cycle. When it has returned, the freed page number resolves to no node and is no key
  of the store; every other node is as before but for its coordinates, so a \<^verbatim>\<open>children\<close>
  array that named the freed page still names it; \<^verbatim>\<open>drawConnections\<close> draws for any node
  what it would draw if the freed page were not among its children; the loop of
  \<^verbatim>\<open>buildLevels\<close> never puts the freed page on its queue, and no level of the layout
  holds it.
\<close>

theorem pageFree_dangling:
  "(acyclic_from (nodes v) (rootPage v) \<longrightarrow> pageFree v p \<noteq> None) \<and>
   (\<forall>v'. pageFree v p = Some v' \<longrightarrow>
      map_of (nodes v') p = None \<and> p \<notin> fst ` set (nodes v') \<and>
      (\<forall>q. q \<noteq> p \<longrightarrow> data_of v' q = data_of v q) \<and>
      (\<forall>n. drawConnections (nodes v') n =
            drawConnections (nodes v') (n\<lparr>children := removeAll p (children n)\<rparr>)) \<and>
      (\<forall>q. p \<notin> set (kids (nodes v') q)) \<and>
      (\<forall>levels ks. map_of (nodes v') (rootPage v') \<noteq> None \<longrightarrow>
          buildLevels (nodes v') (rootPage v') = Some levels \<longrightarrow>
          Some ks \<in> set levels \<longrightarrow> p \<notin> set ks))"
proof -
  let ?w = "v\<lparr>nodes := AList.delete p (nodes v)\<rparr>"
  have total: "pageFree v p \<noteq> None" if "acyclic_from (nodes v) (rootPage v)"
  proof -
    from that have "acyclic_from (nodes ?w) (rootPage ?w)"
      by (simp add: acyclic_from_delete)
    then show ?thesis using layout_returns_iff [of ?w] by (auto simp: pageFree_def)
  qed
  have post: "map_of (nodes v') p = None \<and> p \<notin> fst ` set (nodes v') \<and>
      (\<forall>q. q \<noteq> p \<longrightarrow> data_of v' q = data_of v q) \<and>
      (\<forall>n. drawConnections (nodes v') n =
            drawConnections (nodes v') (n\<lparr>children := removeAll p (children n)\<rparr>)) \<and>
      (\<forall>q. p \<notin> set (kids (nodes v') q)) \<and>
      (\<forall>levels ks. map_of (nodes v') (rootPage v') \<noteq> None \<longrightarrow>
          buildLevels (nodes v') (rootPage v') = Some levels \<longrightarrow>
          Some ks \<in> set levels \<longrightarrow> p \<notin> set ks)"
    if "pageFree v p = Some v'" for v'
  proof -
    from that have l: "layout ?w = Some v'" by (simp add: pageFree_def)
    have sk: "skeleton (nodes v') = AList.delete p (skeleton (nodes v))"
      using layout_fields(1) [OF l] by (simp add: skeleton_delete)
    have "map_of (skeleton (nodes v')) p = None" by (simp add: sk delete_conv')
    then have none: "map_of (nodes v') p = None" by (simp add: map_of_skeleton)
    then have notin: "p \<notin> fst ` set (nodes v')" by (simp add: map_of_eq_None_iff)
    have others: "\<forall>q. q \<noteq> p \<longrightarrow> data_of v' q = data_of v q"
      by (simp add: data_of_skeleton sk delete_conv')
    have draw: "drawConnections (nodes v') n =
            drawConnections (nodes v') (n\<lparr>children := removeAll p (children n)\<rparr>)" for n
      by (rule drawConnections_skip [OF none, symmetric])
    have kd: "p \<notin> set (kids (nodes v') q)" for q
      by (auto simp: kids_def none split: option.splits)
    have lv: "p \<notin> set ks" if "map_of (nodes v') (rootPage v') \<noteq> None"
      "buildLevels (nodes v') (rootPage v') = Some levels" "Some ks \<in> set levels"
    for levels ks
    proof
      assume "p \<in> set ks"
      from that(2) have "level_chain (nodes v') [rootPage v'] levels"
        by (simp add: buildLevels_iff)
      from level_chain_resolves [OF this _ that(3) \<open>p \<in> set ks\<close>] that(1) none
      show False by simp
    qed
    from none notin others draw kd lv show ?thesis by blast
  qed
  show ?thesis
  proof (intro conjI impI allI)
    assume "acyclic_from (nodes v) (rootPage v)"
    then show "pageFree v p \<noteq> None" by (rule total)
  qed (use post in blast)+
qed

theorem pageFree_dangling_witness:
  "acyclic_from (nodes parent_and_child) (rootPage parent_and_child) \<and>
   pageFree parent_and_child 2 = Some child_freed \<and>
   map_of (nodes child_freed) 2 = None \<and>
   data_of child_freed 1 = data_of parent_and_child 1 \<and>
   2 \<notin> set (kids (nodes child_freed) 1) \<and>
   buildLevels (nodes child_freed) (rootPage child_freed) = Some [Some [1]]"
proof -
  have "buildLevels (nodes parent_and_child) (rootPage parent_and_child) =
        Some [Some [1], Some [2]]"
    by (simp add: buildLevels_def bfs_loop.simps kids_def push_level_def parent_and_child_def
        new_visualizer_def fresh_node_def)
  then have a: "acyclic_from (nodes parent_and_child) (rootPage parent_and_child)"
    using buildLevels_terminates_iff by blast
  have f: "pageFree parent_and_child 2 = Some child_freed"
    by (simp add: pageFree_def layout_def buildLevels_def bfs_loop.simps kids_def
        push_level_def parent_and_child_def child_freed_def new_visualizer_def fresh_node_def
        nodeWidth_def horizontalSpacing_def levelHeight_def)
  have b: "buildLevels (nodes child_freed) (rootPage child_freed) = Some [Some [1]]"
    by (simp add: buildLevels_def bfs_loop.simps kids_def push_level_def child_freed_def
        new_visualizer_def fresh_node_def)
  from pageFree_dangling [of parent_and_child 2] a f b show ?thesis by auto
qed

subsection \<open>Cells after a deletion\<close>




subsection \<open>Splitting a page\<close>

text \<open>
  C2, as stated, fails twice on one split. The cells moved to the target keep the indices
  2, 3, 4 that they recorded when they were inserted. And the target, which exists before
  the split as an interior page with a child reference, is replaced by a new node of the
  source's type without children.
\<close>

theorem splitPage_keeps_idx_and_replaces_target:
  "splitPage split_example 1 2 2 = Some split_after \<and>
   map_option (map idx) (cells_of split_after 1) = Some [0, 1] \<and>
   map_option (map idx) (cells_of split_after 2) = Some [2, 3, 4] \<and>
   map_option pageType (map_of (nodes split_example) 2) = Some 0 \<and>
   map_option pageType (map_of (nodes split_after) 2) = Some 1 \<and>
   map_option children (map_of (nodes split_example) 2) = Some [7] \<and>
   map_option children (map_of (nodes split_after) 2) = Some []"
  by (simp add: split_example_def split_after_def new_visualizer_def fresh_node_def
      new_cell_def splitPage_def addPage_def layout_def buildLevels_def bfs_loop.simps
      kids_def push_level_def animateSplit_def splice_keep_def splice_removed_def
      splice_start_def cells_of_def nodeWidth_def horizontalSpacing_def levelHeight_def
      Let_def insert_commute)

text \<open>
  C2, amended: for every store that holds a node at the source page, \<^verbatim>\<open>splitPage\<close> returns
  whenever no node reachable from the root lies on a cycle. It stores under the target
  page a new node of the source's type, without children, whether or not the target
  existed; the new node receives the cells of the source from the split position on, and
  the source, when it is another page, keeps the cells before it. Both keep the order of
  the cells, which occupy the positions from 0 of the two arrays; the index recorded in a
  cell is not changed. For a split position that is not negative the two parts are
  \<open>take\<close> and \<open>drop\<close> of the source's cells. Every other page is as before but for its
  coordinates.
\<close>

theorem splitPage_moves_cells:
  assumes "map_of (nodes v) f = Some src"
  shows "(acyclic_from (nodes v) (rootPage v) \<longrightarrow> splitPage v f t k \<noteq> None) \<and>
   (\<forall>v'. splitPage v f t k = Some v' \<longrightarrow>
      data_of v' t =
        Some ((fresh_node t (pageType src))\<lparr>cells := splice_removed (cells src) k\<rparr>) \<and>
      (t \<noteq> f \<longrightarrow> data_of v' f = Some ((strip src)\<lparr>cells := splice_keep (cells src) k\<rparr>)) \<and>
      (\<forall>q. q \<noteq> f \<and> q \<noteq> t \<longrightarrow> data_of v' q = data_of v q)) \<and>
   splice_keep (cells src) k @ splice_removed (cells src) k = cells src \<and>
   (0 \<le> k \<longrightarrow> splice_keep (cells src) k = take (nat k) (cells src) \<and>
             splice_removed (cells src) k = drop (nat k) (cells src))"
proof -
  let ?fresh = "fresh_node t (pageType src)"
  let ?w = "v\<lparr>nodes := AList.update t ?fresh (nodes v)\<rparr>"
  let ?mv = "\<lambda>n. n\<lparr>cells := splice_removed (cells src) k\<rparr>"
  let ?kp = "\<lambda>n. n\<lparr>cells := splice_keep (cells n) k\<rparr>"
  let ?s2 = "\<lambda>v1. AList.map_entry t ?mv
          (if t = f then nodes v1 else AList.map_entry f ?kp (nodes v1))"
  have kids_s2: "kids (?s2 v1) q = kids (nodes v1) q" for v1 q
    by (simp add: kids_map_entry)
  have total: "splitPage v f t k \<noteq> None" if "acyclic_from (nodes v) (rootPage v)"
    using that by (rule splitPage_returns [OF assms])
  have post: "data_of v' t = Some (?fresh\<lparr>cells := splice_removed (cells src) k\<rparr>) \<and>
      (t \<noteq> f \<longrightarrow> data_of v' f = Some ((strip src)\<lparr>cells := splice_keep (cells src) k\<rparr>)) \<and>
      (\<forall>q. q \<noteq> f \<and> q \<noteq> t \<longrightarrow> data_of v' q = data_of v q)"
    if sp: "splitPage v f t k = Some v'" for v'
  proof -
    from sp splitPage_None [OF assms] obtain v1 where v1: "layout ?w = Some v1"
      by (cases "layout ?w") auto
    let ?w3 = "(if showTransitions v then animateSplit v1 f t k else v1)\<lparr>nodes := ?s2 v1\<rparr>"
    from sp have l3: "layout ?w3 = Some v'" by (simp add: splitPage_layout [OF assms v1])
    have sk1: "skeleton (nodes v1) = AList.update t ?fresh (skeleton (nodes v))"
      using layout_fields(1) [OF v1] by (simp add: skeleton_update strip_fresh)
    have "skeleton (nodes v') = skeleton (?s2 v1)"
      using layout_fields(1) [OF l3] by simp
    also have "\<dots> = AList.map_entry t ?mv
          (if t = f then skeleton (nodes v1) else AList.map_entry f ?kp (skeleton (nodes v1)))"
      by (simp add: skeleton_map_entry strip_def)
    finally have sk: "skeleton (nodes v') = AList.map_entry t ?mv
          (if t = f then AList.update t ?fresh (skeleton (nodes v))
           else AList.map_entry f ?kp (AList.update t ?fresh (skeleton (nodes v))))"
      by (simp add: sk1)
    have src: "map_of (skeleton (nodes v)) f = Some (strip src)"
      by (simp add: map_of_skeleton assms)
    have 1: "data_of v' t = Some (?fresh\<lparr>cells := splice_removed (cells src) k\<rparr>)"
      by (simp add: data_of_skeleton sk map_of_map_entry update_conv')
    have 2: "data_of v' f = Some ((strip src)\<lparr>cells := splice_keep (cells src) k\<rparr>)" if "t \<noteq> f"
      using that src by (simp add: data_of_skeleton sk map_of_map_entry update_conv' strip_def)
    have 3: "data_of v' q = data_of v q" if "q \<noteq> f" "q \<noteq> t" for q
      using that by (simp add: data_of_skeleton sk map_of_map_entry update_conv')
    from 1 2 3 show ?thesis by blast
  qed
  show ?thesis
  proof (intro conjI impI allI)
    assume "acyclic_from (nodes v) (rootPage v)"
    then show "splitPage v f t k \<noteq> None" by (rule total)
  next
    show "splice_keep (cells src) k @ splice_removed (cells src) k = cells src"
      by (rule splice_keep_removed)
  next
    assume "0 \<le> k"
    then show "splice_keep (cells src) k = take (nat k) (cells src)"
      "splice_removed (cells src) k = drop (nat k) (cells src)"
      by (simp_all add: splice_keep_nonneg)
  qed (use post in blast)+
qed

theorem splitPage_moves_cells_witness:
  "map_of (nodes split_example) 1 =
     Some ((fresh_node 1 1)\<lparr>cells :=
       [new_cell 0 16, new_cell 1 16, new_cell 2 16, new_cell 3 16, new_cell 4 16]\<rparr>) \<and>
   acyclic_from (nodes split_example) (rootPage split_example) \<and>
   splitPage split_example 1 2 2 \<noteq> None \<and>
   data_of split_after 2 =
     Some ((fresh_node 2 1)\<lparr>cells := [new_cell 2 16, new_cell 3 16, new_cell 4 16]\<rparr>) \<and>
   data_of split_after 1 = Some ((fresh_node 1 1)\<lparr>cells := [new_cell 0 16, new_cell 1 16]\<rparr>)"
proof -
  let ?src = "(fresh_node 1 1)\<lparr>cells :=
       [new_cell 0 16, new_cell 1 16, new_cell 2 16, new_cell 3 16, new_cell 4 16]\<rparr>"
  have h: "map_of (nodes split_example) 1 = Some ?src"
    by (simp add: split_example_def)
  have "buildLevels (nodes split_example) (rootPage split_example) = Some [Some [1]]"
    by (simp add: buildLevels_def bfs_loop.simps kids_def push_level_def split_example_def
        new_visualizer_def fresh_node_def)
  then have a: "acyclic_from (nodes split_example) (rootPage split_example)"
    using buildLevels_terminates_iff by blast
  have s: "splitPage split_example 1 2 2 = Some split_after"
    by (simp add: split_example_def split_after_def new_visualizer_def fresh_node_def
      new_cell_def splitPage_def addPage_def layout_def buildLevels_def bfs_loop.simps
      kids_def push_level_def animateSplit_def splice_keep_def splice_removed_def
      splice_start_def nodeWidth_def horizontalSpacing_def levelHeight_def
      Let_def insert_commute)
  have t: "splice_removed (cells ?src) 2 = [new_cell 2 16, new_cell 3 16, new_cell 4 16]"
    "splice_keep (cells ?src) 2 = [new_cell 0 16, new_cell 1 16]"
    "pageType ?src = 1" "strip ?src = ?src"
    by (simp_all add: splice_keep_def splice_removed_def splice_start_def fresh_node_def
        strip_def)
  from splitPage_moves_cells [OF h, of 2 2] a s
  have "splitPage split_example 1 2 2 \<noteq> None"
    "data_of split_after 2 =
       Some ((fresh_node 2 (pageType ?src))\<lparr>cells := splice_removed (cells ?src) 2\<rparr>)"
    "data_of split_after 1 = Some ((strip ?src)\<lparr>cells := splice_keep (cells ?src) 2\<rparr>)"
    by auto
  with h a show ?thesis by (simp only: t) (simp add: fresh_node_def)
qed

subsection \<open>Highlights\<close>




subsection \<open>Payloads that do not parse\<close>

text \<open>
  C3, as stated, fails: \<^verbatim>\<open>handleEvent\<close> calls \<^verbatim>\<open>JSON.parse\<close> outside any \<^verbatim>\<open>try\<close>, and the
  \<^verbatim>\<open>SyntaxError\<close> of a truncated payload leaves \<^verbatim>\<open>handleEvent\<close>.
\<close>

theorem handleEvent_throws_on_truncated_payload:
  "handleEvent page_host app_start 2 ''{\"page\":1'' =
     Throws SyntaxError ((connectEvents new_manager)\<lparr>eventCount := 1\<rparr>, new_visualizer 800)"
  by (simp add: handleEvent_def app_start_def page_host_def parse_flat_def
      connectEvents_def on_def new_manager_def)

text \<open>
  C3, amended: for every event code and every payload that \<^verbatim>\<open>JSON.parse\<close> rejects,
  \<^verbatim>\<open>handleEvent\<close> throws the \<^verbatim>\<open>SyntaxError\<close> to its caller. The event counter has been
  incremented by then; the event is not recorded, no listener runs, and the visualizer,
  with its store and its highlights, is left as it was.
\<close>

theorem unparseable_payload_throws:
  assumes "JSON_parse h dataJson = None"
  shows "handleEvent h (m, v) eventType dataJson =
           Throws SyntaxError (m\<lparr>eventCount := eventCount m + 1\<rparr>, v)"
  using assms by (simp add: handleEvent_def)

theorem unparseable_payload_throws_witness:
  "JSON_parse page_host ''{\"page\":1'' = None \<and>
   handleEvent page_host app_start 2 ''{\"page\":1'' =
     Throws SyntaxError ((fst app_start)\<lparr>eventCount := eventCount (fst app_start) + 1\<rparr>,
       snd app_start)"
proof -
  have h: "JSON_parse page_host ''{\"page\":1'' = None"
    by (simp add: page_host_def parse_flat_def)
  from unparseable_payload_throws [OF h, of "fst app_start" "snd app_start" 2] h
  show ?thesis by simp
qed

subsection \<open>Unknown event codes\<close>

text \<open>
  C7, as stated, fails: an event with an unknown code is not always discarded without
  failure. When its payload does not parse, \<^verbatim>\<open>handleEvent\<close> throws the \<^verbatim>\<open>SyntaxError\<close> of
  \<^verbatim>\<open>JSON.parse\<close> as it does for any code.
\<close>

theorem unknown_code_truncated_payload_throws:
  "handleEvent page_host app_start 99 ''{\"page\":1'' =
     Throws SyntaxError ((connectEvents new_manager)\<lparr>eventCount := 1\<rparr>, new_visualizer 800)"
  by (simp add: handleEvent_def app_start_def page_host_def parse_flat_def
      connectEvents_def on_def new_manager_def)

text \<open>
  C7, amended: in an application whose listeners are those of \<^verbatim>\<open>connectEvents\<close>, an event
  whose code is outside 0 to 13 leaves the visualizer, with its store and its highlights,
  as it was, whatever its payload. When the payload parses, \<^verbatim>\<open>handleEvent\<close> returns, having
  counted the event and recorded it under the name \<^verbatim>\<open>UNKNOWN\<close>; no listener runs. When the
  payload does not parse, \<^verbatim>\<open>handleEvent\<close> throws the \<^verbatim>\<open>SyntaxError\<close>, having counted the
  event.
\<close>

theorem unknown_code_leaves_visualizer:
  assumes "listeners m = listeners (connectEvents new_manager)" and "code < 0 \<or> 13 < code"
  shows "(\<forall>d. JSON_parse h payload = Some d \<longrightarrow>
            handleEvent h (m, v) code payload =
              Returns (m\<lparr>eventCount := eventCount m + 1,
                        events := events m @
                          [\<lparr>event_id = eventCount m, event_type = code, typeName = ''UNKNOWN'',
                            category = ''other'', data = d, timestamp = clock v\<rparr>]\<rparr>, v)) \<and>
         (JSON_parse h payload = None \<longrightarrow>
            handleEvent h (m, v) code payload =
              Throws SyntaxError (m\<lparr>eventCount := eventCount m + 1\<rparr>, v))"
  using no_callbacks [OF assms] unknown_names [OF assms(2)]
  by (simp add: handleEvent_def Let_def logEvent_def formatEventData_def notifyListeners_def)

theorem unknown_code_leaves_visualizer_witness:
  "listeners (fst app_start) = listeners (connectEvents new_manager) \<and>
   ((99::int) < 0 \<or> 13 < (99::int)) \<and>
   JSON_parse page_host ''{}'' = Some (JObj []) \<and>
   handleEvent page_host app_start 99 ''{}'' =
     Returns ((fst app_start)\<lparr>eventCount := 1,
                events := [\<lparr>event_id = 0, event_type = 99, typeName = ''UNKNOWN'',
                            category = ''other'', data = JObj [], timestamp = 0\<rparr>]\<rparr>,
              snd app_start)"
proof -
  have h1: "listeners (fst app_start) = listeners (connectEvents new_manager)"
    by (simp add: app_start_def)
  have h2: "(99::int) < 0 \<or> 13 < (99::int)" by simp
  have p: "JSON_parse page_host ''{}'' = Some (JObj [])"
    by (simp add: page_host_def parse_flat_def)
  have e: "eventCount (fst app_start) = 0" "events (fst app_start) = []"
    "clock (snd app_start) = 0"
    by (simp_all add: app_start_def connectEvents_def on_def new_manager_def
        new_visualizer_def)
  from unknown_code_leaves_visualizer [OF h1 h2, of page_host "''{}''" "snd app_start"] p
  have "handleEvent page_host (fst app_start, snd app_start) 99 ''{}'' =
      Returns ((fst app_start)\<lparr>eventCount := eventCount (fst app_start) + 1,
                        events := events (fst app_start) @
                          [\<lparr>event_id = eventCount (fst app_start), event_type = 99,
                            typeName = ''UNKNOWN'', category = ''other'', data = JObj [],
                            timestamp = clock (snd app_start)\<rparr>]\<rparr>, snd app_start)"
    by blast
  with h1 h2 p show ?thesis by (simp add: e)
qed

end
